theory Spec2Isabelle
  imports Main "HOL-Library.Word"
begin

unbundle bit_operations_syntax

section \<open>Soft EEPROM emulation on flash: the driver of softeeprom.c\<close>

text \<open>
  The flash is a function from byte addresses to 32-bit words; the driver only ever reads
  and programs whole words at word-aligned addresses.  Pointers are natural numbers (byte
  addresses).  \<open>SoftEEPROMInit\<close> refuses a region that ends beyond the flash, so pointer
  sums inside the region do not wrap around; where a pointer can leave the region (the
  sentinel \<open>0xFFFFFFFF\<close>, the start of the read scan) the model says so explicitly.
  Status words, entries and counters are machine words and wrap as in C.
\<close>

type_synonym flash_mem = "nat \<Rightarrow> 32 word"

subsection \<open>Constants of softeeprom.c and softeeprom.h\<close>

definition ERASED_WORD :: "32 word" where
  "ERASED_WORD = 0xFFFFFFFF"

definition MAX_SOFTEEPROM_IDS :: nat where
  "MAX_SOFTEEPROM_IDS = 127"

definition NUM_IDS :: nat where
  "NUM_IDS = MAX_SOFTEEPROM_IDS"

definition NUM_VECTOR_BITS :: nat where
  "NUM_VECTOR_BITS = NUM_IDS + 8 - (NUM_IDS mod 8)"

definition NUM_VECTOR_BYTES :: nat where
  "NUM_VECTOR_BYTES = NUM_VECTOR_BITS div 8"

definition EEPROM_BOUNDARY :: nat where
  "EEPROM_BOUNDARY = 0x1000"

text \<open>
  Modelled from the spec: \<open>FLASH_ERASE_SIZE\<close> comes from the vendor's flash.h, which is not
  part of the sources.  The erase unit of the reference system is the 1K byte block that
  the introduction of softeeprom.c describes.
\<close>

definition FLASH_ERASE_SIZE :: nat where
  "FLASH_ERASE_SIZE = 0x400"

definition ERR_NOT_INIT :: int where "ERR_NOT_INIT = 0x0001"
definition ERR_ILLEGAL_ID :: int where "ERR_ILLEGAL_ID = 0x0002"
definition ERR_PG_ERASE :: int where "ERR_PG_ERASE = 0x0003"
definition ERR_PG_WRITE :: int where "ERR_PG_WRITE = 0x0004"
definition ERR_ACTIVE_PG_CNT :: int where "ERR_ACTIVE_PG_CNT = 0x0005"
definition ERR_RANGE :: int where "ERR_RANGE = 0x0006"
definition ERR_AVAIL_ENTRY :: int where "ERR_AVAIL_ENTRY = 0x0007"
definition ERR_TWO_ACTIVE_NO_FULL :: int where "ERR_TWO_ACTIVE_NO_FULL = 0x0008"
definition ERR_SWAP :: int where "ERR_SWAP = 0x8000"

subsection \<open>The block device adapter\<close>

text \<open>
  \<open>FlashErase\<close>, \<open>FlashProgram\<close> and \<open>SysCtlFlashSizeGet\<close> belong to the platform, not to
  the repository: the driver takes them as a parameter.  Each primitive returns its
  return code (0 for success) and the flash it leaves behind.
\<close>

record flash_dev =
  FlashErase :: "flash_mem \<Rightarrow> nat \<Rightarrow> int \<times> flash_mem"
  FlashProgram :: "flash_mem \<Rightarrow> 32 word list \<Rightarrow> nat \<Rightarrow> nat \<Rightarrow> int \<times> flash_mem"
  SysCtlFlashSizeGet :: nat

text \<open>The effect of a successful erase: the erase unit that holds the address reads erased.\<close>

definition erase_block :: "flash_mem \<Rightarrow> nat \<Rightarrow> flash_mem" where
  "erase_block m a =
     (\<lambda>x. if a - a mod FLASH_ERASE_SIZE \<le> x \<and> x < a - a mod FLASH_ERASE_SIZE + FLASH_ERASE_SIZE
          then ERASED_WORD else m x)"

text \<open>
  The effect of programming: a NOR cell can only clear bits, so the word read back is the
  conjunction of the old content and the data.  On an erased word it is the data.
\<close>

fun program_words :: "flash_mem \<Rightarrow> nat \<Rightarrow> 32 word list \<Rightarrow> flash_mem" where
  "program_words m a [] = m"
| "program_words m a (d # ds) = program_words (m(a := m a AND d)) (a + 4) ds"

text \<open>A device without faults: every erase and every program succeeds.\<close>

definition nor_flash :: "nat \<Rightarrow> flash_dev" where
  "nor_flash sz =
     \<lparr> FlashErase = (\<lambda>m a. (0, erase_block m a)),
       FlashProgram = (\<lambda>m d a n. (0, program_words m a (take (n div 4) d))),
       SysCtlFlashSizeGet = sz \<rparr>"

subsection \<open>The driver's globals and the flash\<close>

text \<open>
  The record holds the static variables of softeeprom.c and the flash.  \<open>steps\<close> is a
  ghost field: the flash contents after each erase and program command issued so far, in
  order, so that the states between the steps of an operation can be spoken about.
\<close>

record eeprom =
  g_pucEEPROMStart :: nat
  g_pucEEPROMEnd :: nat
  g_ulEEPROMPgSize :: nat
  g_bEEPROMInitialized :: bool
  g_pucActivePage :: nat
  g_pucNextAvailEntry :: nat
  flash :: flash_mem
  steps :: "flash_mem list"

definition erase_step :: "flash_dev \<Rightarrow> eeprom \<Rightarrow> nat \<Rightarrow> int \<times> eeprom" where
  "erase_step dev s a =
     (case FlashErase dev (flash s) a of
        (rc, m) \<Rightarrow> (rc, s\<lparr>flash := m, steps := steps s @ [m]\<rparr>))"

definition program_step ::
  "flash_dev \<Rightarrow> eeprom \<Rightarrow> 32 word list \<Rightarrow> nat \<Rightarrow> nat \<Rightarrow> int \<times> eeprom" where
  "program_step dev s pulData a n =
     (case FlashProgram dev (flash s) pulData a n of
        (rc, m) \<Rightarrow> (rc, s\<lparr>flash := m, steps := steps s @ [m]\<rparr>))"

subsection \<open>PageErase\<close>

function PageErase_loop :: "flash_dev \<Rightarrow> eeprom \<Rightarrow> nat \<Rightarrow> nat \<Rightarrow> int \<times> eeprom" where
  "PageErase_loop dev s pucAddr lim =
     (if pucAddr < lim then
        (case erase_step dev s pucAddr of
           (rc, s') \<Rightarrow>
             if rc \<noteq> 0 then (-1, s')
             else PageErase_loop dev s' (pucAddr + FLASH_ERASE_SIZE) lim)
      else (0, s))"
  by pat_completeness auto
termination
  by (relation "measure (\<lambda>(dev, s, pucAddr, lim). lim - pucAddr)")
     (auto simp: FLASH_ERASE_SIZE_def)

definition PageErase :: "flash_dev \<Rightarrow> eeprom \<Rightarrow> nat \<Rightarrow> int \<times> eeprom" where
  "PageErase dev s pucPageAddr =
     (case PageErase_loop dev s pucPageAddr (pucPageAddr + g_ulEEPROMPgSize s) of
        (rc, s') \<Rightarrow>
          if rc \<noteq> 0 then (-1, s')
          else if flash s' pucPageAddr \<noteq> ERASED_WORD \<or> flash s' (pucPageAddr + 4) \<noteq> ERASED_WORD
          then (-1, s')
          else (0, s'))"

subsection \<open>PageDataWrite\<close>

text \<open>
  The verification loop of \<open>PageDataWrite\<close> is
  \<^verbatim>\<open>for(ulByteCount = 0; ulByteCount < ulByteCount; ulByteCount += 4)\<close>:
  the loop counter is the parameter that held the number of bytes, so the bound is the
  counter itself.
\<close>

function PageDataWrite_verify :: "flash_mem \<Rightarrow> 32 word list \<Rightarrow> nat \<Rightarrow> 32 word \<Rightarrow> int" where
  "PageDataWrite_verify m pulData pucPgAddr ulByteCount =
     (if ulByteCount < ulByteCount then
        (case pulData of
           [] \<Rightarrow> -1
         | d # ds \<Rightarrow>
             if m pucPgAddr \<noteq> d then -1
             else PageDataWrite_verify m ds (pucPgAddr + 4) (ulByteCount + 4))
      else 0)"
  by pat_completeness auto
termination
  by (relation "{}") auto

definition PageDataWrite ::
  "flash_dev \<Rightarrow> eeprom \<Rightarrow> 32 word list \<Rightarrow> nat \<Rightarrow> nat \<Rightarrow> int \<times> eeprom" where
  "PageDataWrite dev s pulData pucPgAddr ulByteCount =
     (case program_step dev s pulData pucPgAddr ulByteCount of
        (rc, s') \<Rightarrow>
          if rc \<noteq> 0 then (-1, s')
          else (PageDataWrite_verify (flash s') pulData pucPgAddr 0, s'))"

subsection \<open>Page status\<close>

definition PageIsActive :: "flash_mem \<Rightarrow> nat \<Rightarrow> bool" where
  "PageIsActive m pucPageAddr =
     (m pucPageAddr \<noteq> ERASED_WORD \<and> m (pucPageAddr + 4) = ERASED_WORD)"

definition PageIsUsed :: "flash_mem \<Rightarrow> nat \<Rightarrow> bool" where
  "PageIsUsed m pucPageAddr =
     (m pucPageAddr \<noteq> ERASED_WORD \<and> m (pucPageAddr + 4) \<noteq> ERASED_WORD)"

text \<open>
  The addresses visited by the loop header
  \<^verbatim>\<open>for(p = g_pucEEPROMStart; p < g_pucEEPROMEnd; p += g_ulEEPROMPgSize)\<close>.
  With a page size of 0 the C loop would not end; \<open>SoftEEPROMInit\<close>, the only caller of
  these loops, is modelled as refusing such a configuration (its ASSERTs), and the guard
  \<open>0 < pg\<close> keeps the function total.
\<close>

function page_addrs :: "nat \<Rightarrow> nat \<Rightarrow> nat \<Rightarrow> nat list" where
  "page_addrs p e pg =
     (if p < e \<and> 0 < pg then p # page_addrs (p + pg) e pg else [])"
  by pat_completeness auto
termination
  by (relation "measure (\<lambda>(p, e, pg). e - p)") auto

definition pages :: "eeprom \<Rightarrow> nat list" where
  "pages s = page_addrs (g_pucEEPROMStart s) (g_pucEEPROMEnd s) (g_ulEEPROMPgSize s)"

text \<open>The counters are \<open>unsigned char\<close>.\<close>

definition GetActivePageCount :: "eeprom \<Rightarrow> 8 word" where
  "GetActivePageCount s =
     fold (\<lambda>pucPageAddr ucCnt. if PageIsActive (flash s) pucPageAddr then ucCnt + 1 else ucCnt)
       (pages s) 0"

definition GetUsedPageCount :: "eeprom \<Rightarrow> 8 word" where
  "GetUsedPageCount s =
     fold (\<lambda>pucPageAddr ucCnt. if PageIsUsed (flash s) pucPageAddr then ucCnt + 1 else ucCnt)
       (pages s) 0"

text \<open>
  The size of the entry array, \<open>usSize = (g_ulEEPROMPgSize / 4) - 2\<close>: computed in
  \<open>unsigned long\<close> and stored in an \<open>unsigned short\<close>.
\<close>

definition usSize :: "eeprom \<Rightarrow> nat" where
  "usSize s = unat (ucast ((word_of_nat (g_ulEEPROMPgSize s div 4) :: 32 word) - 2) :: 16 word)"

fun GetNextAvailEntry_loop :: "flash_mem \<Rightarrow> nat \<Rightarrow> nat \<Rightarrow> nat" where
  "GetNextAvailEntry_loop m 0 pucPageAddr = pucPageAddr"
| "GetNextAvailEntry_loop m (Suc n) pucPageAddr =
     (if m pucPageAddr = ERASED_WORD then pucPageAddr
      else GetNextAvailEntry_loop m n (pucPageAddr + 4))"

definition GetNextAvailEntry :: "eeprom \<Rightarrow> nat" where
  "GetNextAvailEntry s = GetNextAvailEntry_loop (flash s) (usSize s) (g_pucActivePage s + 8)"

text \<open>
  \<open>GetMostRecentlyUsedPage\<close>: the loop state is \<open>(ulActiveStatusCnt, pucMRUPage)\<close>,
  started at 0 and at the pointer \<open>0xFFFFFFFF\<close>.
\<close>

definition GetMostRecentlyUsedPage :: "eeprom \<Rightarrow> nat" where
  "GetMostRecentlyUsedPage s =
     snd (fold (\<lambda>pucPageAddr (ulActiveStatusCnt, pucMRUPage).
                  if PageIsUsed (flash s) pucPageAddr then
                    if flash s pucPageAddr > ulActiveStatusCnt
                    then (flash s pucPageAddr, pucPageAddr)
                    else (ulActiveStatusCnt, pucMRUPage)
                  else (ulActiveStatusCnt, pucMRUPage))
            (pages s) (0 :: 32 word, 0xFFFFFFFF))"

subsection \<open>PageSwap\<close>

text \<open>
  The locals of the copy loop.  \<open>ulDataBuffer\<close> holds the words put into the 32-word
  static buffer since the last flush, so its length is \<open>ulNumWordsInBuffer\<close>.  An access
  outside \<open>ucIDSwapped\<close> or outside the buffer is undefined behaviour in C: the model
  returns \<open>None\<close> for it.
\<close>

record swap_locals =
  pucUsedEntry :: nat
  ucIDSwapped :: "8 word list"
  ulDataBuffer :: "32 word list"
  ulByteCount :: "32 word"
  pucNewEntry :: nat

definition usEntryID_of :: "32 word \<Rightarrow> 16 word" where
  "usEntryID_of ulEntry = ucast (drop_bit 16 ulEntry)"

text \<open>
  One pass through the body of the copy loop.  A return code other than 0 means that
  \<open>PageSwap\<close> returns with it from inside the loop.
\<close>

definition PageSwap_entry ::
  "flash_dev \<Rightarrow> eeprom \<Rightarrow> swap_locals \<Rightarrow> (int \<times> eeprom \<times> swap_locals) option" where
  "PageSwap_entry dev s l =
     (let ulEntry = flash s (pucUsedEntry l);
          l1 = l\<lparr>pucUsedEntry := pucUsedEntry l - 4\<rparr>;
          usEntryID = usEntryID_of ulEntry;
          i = unat usEntryID div 8
      in if \<not> i < NUM_VECTOR_BYTES then None
         else if (ucIDSwapped l1 ! i) AND push_bit (unat usEntryID mod 8) 1 = 0
                 \<and> usEntryID \<noteq> 0xFF then
           if \<not> length (ulDataBuffer l1) < 32 then None
           else
             let l2 = l1\<lparr>ulDataBuffer := ulDataBuffer l1 @ [ulEntry],
                         ucIDSwapped := (ucIDSwapped l1)
                            [i := (ucIDSwapped l1 ! i) OR push_bit (unat usEntryID mod 8) 1],
                         ulByteCount := ulByteCount l1 - 4\<rparr>
             in if ulByteCount l2 = 0 then
                  (case PageDataWrite dev s (ulDataBuffer l2) (pucNewEntry l2)
                          (length (ulDataBuffer l2) * 4) of
                     (rc, s') \<Rightarrow>
                       if rc \<noteq> 0 then Some (ERR_SWAP OR ERR_PG_WRITE, s', l2)
                       else Some (0, s',
                              l2\<lparr>pucNewEntry := pucNewEntry l2 + length (ulDataBuffer l2) * 4,
                                 ulByteCount := 32 * 4,
                                 ulDataBuffer := []\<rparr>))
                else Some (0, s, l2)
         else Some (0, s, l1))"

text \<open>The loop \<^verbatim>\<open>for(usCnt = 0; usCnt < usSize; usCnt++)\<close>, by the number of passes left.\<close>

fun PageSwap_copy ::
  "flash_dev \<Rightarrow> nat \<Rightarrow> eeprom \<Rightarrow> swap_locals \<Rightarrow> (int \<times> eeprom \<times> swap_locals) option" where
  "PageSwap_copy dev 0 s l = Some (0, s, l)"
| "PageSwap_copy dev (Suc n) s l =
     (case PageSwap_entry dev s l of
        None \<Rightarrow> None
      | Some (rc, s', l') \<Rightarrow>
          if rc \<noteq> 0 then Some (rc, s', l') else PageSwap_copy dev n s' l')"

definition PageSwap_flush :: "flash_dev \<Rightarrow> eeprom \<Rightarrow> swap_locals \<Rightarrow> int \<times> eeprom \<times> swap_locals" where
  "PageSwap_flush dev s l =
     (if length (ulDataBuffer l) \<noteq> 0 then
        (case PageDataWrite dev s (ulDataBuffer l) (pucNewEntry l) (length (ulDataBuffer l) * 4) of
           (rc, s') \<Rightarrow>
             if rc \<noteq> 0 then (ERR_SWAP OR ERR_PG_WRITE, s', l)
             else (0, s', l\<lparr>pucNewEntry := pucNewEntry l + length (ulDataBuffer l) * 4\<rparr>))
      else (0, s, l))"

definition PageSwap_mark :: "flash_dev \<Rightarrow> eeprom \<Rightarrow> nat \<Rightarrow> nat \<Rightarrow> nat \<Rightarrow> int \<times> eeprom" where
  "PageSwap_mark dev s pucFullPageAddr pucNewPageAddr pucNewEntry' =
     (case PageDataWrite dev s [flash s pucFullPageAddr + 1] pucNewPageAddr 4 of
        (rc, s1) \<Rightarrow>
          if rc \<noteq> 0 then (ERR_SWAP OR ERR_PG_WRITE, s1)
          else
            (case PageDataWrite dev s1 [NOT ERASED_WORD] (pucFullPageAddr + 4) 4 of
               (rc, s2) \<Rightarrow>
                 if rc \<noteq> 0 then (ERR_SWAP OR ERR_PG_WRITE, s2)
                 else
                   let s3 = s2\<lparr>g_pucActivePage := pucNewPageAddr,
                               g_pucNextAvailEntry := pucNewEntry'\<rparr>
                   in if \<not> (g_pucNextAvailEntry s3 < g_pucActivePage s3 + g_ulEEPROMPgSize s3)
                      then (ERR_SWAP OR ERR_AVAIL_ENTRY, s3)
                      else (0, s3)))"

definition next_page :: "eeprom \<Rightarrow> nat \<Rightarrow> nat" where
  "next_page s p =
     (if p + g_ulEEPROMPgSize s < g_pucEEPROMEnd s then p + g_ulEEPROMPgSize s
      else g_pucEEPROMStart s)"

definition PageSwap :: "flash_dev \<Rightarrow> eeprom \<Rightarrow> nat \<Rightarrow> (int \<times> eeprom) option" where
  "PageSwap dev s pucFullPageAddr =
     (let pucNewPageAddr = next_page s pucFullPageAddr in
      case PageErase dev s pucNewPageAddr of
        (rc, s1) \<Rightarrow>
          if rc \<noteq> 0 then Some (ERR_SWAP OR ERR_PG_ERASE, s1)
          else
            (case PageSwap_copy dev (usSize s1) s1
                    \<lparr> pucUsedEntry = pucFullPageAddr + g_ulEEPROMPgSize s1 - 4,
                      ucIDSwapped = replicate NUM_VECTOR_BYTES 0,
                      ulDataBuffer = [],
                      ulByteCount = 32 - (word_of_nat (pucNewPageAddr + 8) AND 0x7F),
                      pucNewEntry = pucNewPageAddr + 8 \<rparr> of
               None \<Rightarrow> None
             | Some (rc, s2, l) \<Rightarrow>
                 if rc \<noteq> 0 then Some (rc, s2)
                 else
                   (case PageSwap_flush dev s2 l of
                      (rc, s3, l') \<Rightarrow>
                        if rc \<noteq> 0 then Some (rc, s3)
                        else Some (PageSwap_mark dev s3 pucFullPageAddr pucNewPageAddr
                                     (pucNewEntry l')))))"

subsection \<open>SoftEEPROMWrite, SoftEEPROMRead, SoftEEPROMClear\<close>

definition make_entry :: "16 word \<Rightarrow> 16 word \<Rightarrow> 32 word" where
  "make_entry usID usData = push_bit 16 (ucast usID) OR ucast usData"

definition SoftEEPROMWrite ::
  "flash_dev \<Rightarrow> eeprom \<Rightarrow> 16 word \<Rightarrow> 16 word \<Rightarrow> (int \<times> eeprom) option" where
  "SoftEEPROMWrite dev s usID usData =
     (if \<not> g_bEEPROMInitialized s then Some (ERR_NOT_INIT, s)
      else if unat usID \<ge> NUM_IDS then Some (ERR_ILLEGAL_ID, s)
      else
        (case (if g_pucNextAvailEntry s \<ge> g_pucActivePage s + g_ulEEPROMPgSize s
               then PageSwap dev s (g_pucActivePage s) else Some (0, s)) of
           None \<Rightarrow> None
         | Some (lReturnCode, s1) \<Rightarrow>
             if lReturnCode \<noteq> 0 then Some (lReturnCode, s1)
             else
               (case PageDataWrite dev s1 [make_entry usID usData] (g_pucNextAvailEntry s1) 4 of
                  (rc, s2) \<Rightarrow>
                    if rc \<noteq> 0 then Some (ERR_PG_WRITE, s2)
                    else Some (0, s2\<lparr>g_pucNextAvailEntry := g_pucNextAvailEntry s2 + 4\<rparr>))))"

text \<open>
  The scan of \<open>SoftEEPROMRead\<close>, from \<open>g_pucNextAvailEntry - 4\<close> down to the first entry.
  Its state is the pair \<open>(*pusData, *pbFound)\<close>.
\<close>

function SoftEEPROMRead_loop ::
  "eeprom \<Rightarrow> 16 word \<Rightarrow> nat \<Rightarrow> 16 word \<times> bool \<Rightarrow> 16 word \<times> bool" where
  "SoftEEPROMRead_loop s usID pucEntry out =
     (if pucEntry \<ge> g_pucActivePage s + 8 then
        if drop_bit 16 (flash s pucEntry) = ucast usID
        then (ucast (flash s pucEntry AND 0xFFFF), True)
        else SoftEEPROMRead_loop s usID (pucEntry - 4) out
      else out)"
  by pat_completeness auto
termination
  by (relation "measure (\<lambda>(s, usID, pucEntry, out). pucEntry)") auto

text \<open>
  The result is the return code and, when the function got as far as writing them, the
  values stored through \<open>pusData\<close> and \<open>pbFound\<close>.
\<close>

definition SoftEEPROMRead :: "eeprom \<Rightarrow> 16 word \<Rightarrow> int \<times> (16 word \<times> bool) option" where
  "SoftEEPROMRead s usID =
     (if \<not> g_bEEPROMInitialized s then (ERR_NOT_INIT, None)
      else if unat usID > NUM_IDS - 1 then (ERR_ILLEGAL_ID, None)
      else (0, Some (SoftEEPROMRead_loop s usID
                       ((g_pucNextAvailEntry s + 2 ^ 32 - 4) mod 2 ^ 32) (0xFFFF, False))))"

definition SoftEEPROMClear :: "flash_dev \<Rightarrow> eeprom \<Rightarrow> int \<times> eeprom" where
  "SoftEEPROMClear dev s =
     (if \<not> g_bEEPROMInitialized s then (ERR_NOT_INIT, s)
      else
        (case PageDataWrite dev s [NOT ERASED_WORD] (g_pucActivePage s + 4) 4 of
           (rc, s1) \<Rightarrow>
             if rc \<noteq> 0 then (ERR_PG_WRITE, s1)
             else
               let pucNewPageAddr = next_page s1 (g_pucActivePage s1) in
               (case PageErase dev s1 pucNewPageAddr of
                  (rc, s2) \<Rightarrow>
                    if rc \<noteq> 0 then (ERR_PG_ERASE, s2)
                    else
                      (case PageDataWrite dev s2 [flash s2 (g_pucActivePage s2) + 1]
                              pucNewPageAddr 4 of
                         (rc, s3) \<Rightarrow>
                           if rc \<noteq> 0 then (ERR_PG_WRITE, s3)
                           else (0, s3\<lparr>g_pucActivePage := pucNewPageAddr,
                                        g_pucNextAvailEntry := pucNewPageAddr + 8\<rparr>)))))"

subsection \<open>SoftEEPROMInit\<close>

text \<open>
  The ASSERTs at the head of \<open>SoftEEPROMInit\<close>.  A call that violates one is outside the
  driver's contract (a debug build stops in \<open>__error__\<close>, a release build may loop
  forever on a page size of 0): the model returns \<open>None\<close> for it.
\<close>

definition init_asserts :: "32 word \<Rightarrow> 32 word \<Rightarrow> 32 word \<Rightarrow> bool" where
  "init_asserts ulStart ulEnd ulSize =
     (ulEnd > ulStart \<and>
      unat ulStart mod EEPROM_BOUNDARY = 0 \<and>
      unat ulEnd mod EEPROM_BOUNDARY = 0 \<and>
      unat ulSize mod FLASH_ERASE_SIZE = 0 \<and>
      unat ulSize div 4 \<ge> MAX_SOFTEEPROM_IDS * 2 \<and>
      unat (ulEnd - ulStart) div unat ulSize \<ge> 2)"

text \<open>Mark a freshly erased page active and adopt it (the tail shared by the repairs).\<close>

definition Init_activate ::
  "flash_dev \<Rightarrow> eeprom \<Rightarrow> 32 word \<Rightarrow> nat \<Rightarrow> int \<times> eeprom" where
  "Init_activate dev s ulActiveStatusCnt pucPageAddr =
     (case PageDataWrite dev s [ulActiveStatusCnt] pucPageAddr 4 of
        (rc, s1) \<Rightarrow>
          if rc \<noteq> 0 then (ERR_PG_WRITE, s1)
          else (0, s1\<lparr>g_pucActivePage := pucPageAddr,
                       g_pucNextAvailEntry := pucPageAddr + 8\<rparr>))"

text \<open>The loop that looks for the active page, with its \<open>break\<close>.\<close>

function Init_find_active :: "eeprom \<Rightarrow> nat \<Rightarrow> nat" where
  "Init_find_active s pucActivePg =
     (if pucActivePg < g_pucEEPROMEnd s \<and> 0 < g_ulEEPROMPgSize s then
        if PageIsActive (flash s) pucActivePg then pucActivePg
        else Init_find_active s (pucActivePg + g_ulEEPROMPgSize s)
      else pucActivePg)"
  by pat_completeness auto
termination
  by (relation "measure (\<lambda>(s, p). g_pucEEPROMEnd s - p)") auto

text \<open>The loop that looks for a full active page; it returns \<open>(bFullPgFound, pucActivePg)\<close>.\<close>

function Init_find_full :: "eeprom \<Rightarrow> nat \<Rightarrow> bool \<times> nat" where
  "Init_find_full s pucActivePg =
     (if pucActivePg < g_pucEEPROMEnd s \<and> 0 < g_ulEEPROMPgSize s then
        if PageIsActive (flash s) pucActivePg
           \<and> flash s (pucActivePg + g_ulEEPROMPgSize s - 4) \<noteq> 0xFFFFFFFF
        then (True, pucActivePg)
        else Init_find_full s (pucActivePg + g_ulEEPROMPgSize s)
      else (False, pucActivePg))"
  by pat_completeness auto
termination
  by (relation "measure (\<lambda>(s, p). g_pucEEPROMEnd s - p)") auto

text \<open>The branch for no active page.\<close>

definition Init_no_active :: "flash_dev \<Rightarrow> eeprom \<Rightarrow> (int \<times> eeprom) option" where
  "Init_no_active dev s =
     (if GetUsedPageCount s = 0 then
        (case PageErase dev s (g_pucEEPROMStart s) of
           (rc, s1) \<Rightarrow>
             if rc \<noteq> 0 then Some (ERR_PG_ERASE, s1)
             else Some (Init_activate dev s1 0 (g_pucEEPROMStart s1)))
      else
        (let pucPageAddr = GetMostRecentlyUsedPage s in
         \<comment> \<open>\<open>*(unsigned long *)pucPageAddr\<close>: the sentinel points to no object\<close>
         if pucPageAddr = 0xFFFFFFFF then None
         else
           let ulActiveStatusCnt = flash s pucPageAddr + 1;
               pucPageAddr' = next_page s pucPageAddr
           in (case PageErase dev s pucPageAddr' of
                 (rc, s1) \<Rightarrow>
                   if rc \<noteq> 0 then Some (ERR_PG_ERASE, s1)
                   else Some (Init_activate dev s1 ulActiveStatusCnt pucPageAddr'))))"

text \<open>The branch for one active page.\<close>

definition Init_one_active :: "flash_dev \<Rightarrow> eeprom \<Rightarrow> int \<times> eeprom" where
  "Init_one_active dev s =
     (let pucActivePg = Init_find_active s (g_pucEEPROMStart s);
          pucPageAddr = (if pucActivePg = g_pucEEPROMStart s
                         then g_pucEEPROMEnd s - g_ulEEPROMPgSize s
                         else pucActivePg - g_ulEEPROMPgSize s)
      in if PageIsUsed (flash s) pucPageAddr then
           if flash s pucPageAddr = flash s pucActivePg - 1 then
             (let s1 = s\<lparr>g_pucActivePage := pucActivePg\<rparr>
              in (0, s1\<lparr>g_pucNextAvailEntry := GetNextAvailEntry s1\<rparr>))
           else
             (case PageErase dev s pucActivePg of
                (rc, s1) \<Rightarrow>
                  if rc \<noteq> 0 then (ERR_PG_ERASE, s1)
                  else Init_activate dev s1 (flash s1 pucPageAddr + 1) pucActivePg)
         else
           (let s1 = s\<lparr>g_pucActivePage := pucActivePg\<rparr>
            in (0, s1\<lparr>g_pucNextAvailEntry := GetNextAvailEntry s1\<rparr>)))"

text \<open>The branch for two active pages.\<close>

definition Init_two_active :: "eeprom \<Rightarrow> int \<times> eeprom" where
  "Init_two_active s =
     (case Init_find_full s (g_pucEEPROMStart s) of
        (bFullPgFound, pucActivePg) \<Rightarrow>
          if bFullPgFound
          then (0, s\<lparr>g_pucActivePage := pucActivePg,
                      g_pucNextAvailEntry := pucActivePg + g_ulEEPROMPgSize s\<rparr>)
          else (ERR_TWO_ACTIVE_NO_FULL, s))"

text \<open>
  Saving the characteristics of the region: the addresses are masked to the 4K boundary.
\<close>

definition Init_save :: "eeprom \<Rightarrow> 32 word \<Rightarrow> 32 word \<Rightarrow> 32 word \<Rightarrow> eeprom" where
  "Init_save s ulStart ulEnd ulSize =
     s\<lparr>g_pucEEPROMStart := unat (ulStart AND NOT (word_of_nat EEPROM_BOUNDARY - 1)),
       g_pucEEPROMEnd := unat (ulEnd AND NOT (word_of_nat EEPROM_BOUNDARY - 1)),
       g_ulEEPROMPgSize := unat ulSize\<rparr>"

text \<open>The recovery proper: the branches on the number of active pages.\<close>

definition Init_recover :: "flash_dev \<Rightarrow> eeprom \<Rightarrow> (int \<times> eeprom) option" where
  "Init_recover dev s =
     (let ucActivePgCnt = GetActivePageCount s
      in if ucActivePgCnt = 0 then Init_no_active dev s
         else if ucActivePgCnt = 1 then Some (Init_one_active dev s)
         else if ucActivePgCnt = 2 then Some (Init_two_active s)
         else Some (ERR_ACTIVE_PG_CNT, s))"

definition SoftEEPROMInit ::
  "flash_dev \<Rightarrow> eeprom \<Rightarrow> 32 word \<Rightarrow> 32 word \<Rightarrow> 32 word \<Rightarrow> (int \<times> eeprom) option" where
  "SoftEEPROMInit dev s ulStart ulEnd ulSize =
     (if \<not> init_asserts ulStart ulEnd ulSize then None
      else if unat ulEnd > SysCtlFlashSizeGet dev then Some (ERR_RANGE, s)
      else
        (case Init_recover dev (Init_save s ulStart ulEnd ulSize) of
           None \<Rightarrow> None
         | Some (rc, s1) \<Rightarrow>
             if rc \<noteq> 0 then Some (rc, s1)
             else Some (0, s1\<lparr>g_bEEPROMInitialized := True\<rparr>)))"

subsection \<open>The addressing wrapper of softeeprom_wrapper.c\<close>

text \<open>
  \<open>OutputErrorAndQuit\<close> prints the error and enters \<^verbatim>\<open>while(1)\<close>: it does not return.
\<close>

partial_function (option) OutputErrorAndQuit :: "int \<Rightarrow> unit option" where
  "OutputErrorAndQuit ulError = OutputErrorAndQuit ulError"

text \<open>
  The range check shared by both wrappers; the operands are \<open>unsigned short\<close>, promoted
  to \<open>int\<close>, so the sum does not wrap.
\<close>

definition range_invalid :: "16 word \<Rightarrow> 16 word \<Rightarrow> bool" where
  "range_invalid usAddress usSize' =
     ((unat usAddress + unat usSize') div 2 > MAX_SOFTEEPROM_IDS)"

text \<open>
  The loop of \<open>SoftEEPROM_WrapperWrite\<close>.  \<open>usAddress\<close> and \<open>usSize\<close> are
  \<open>unsigned short\<close>: natural numbers below 65536, the address incremented modulo 65536
  (the size is only decremented while it is large enough).  \<open>pucData\<close> is the rest of the
  caller's buffer; a read past its end is undefined (\<open>None\<close>).  The loop returns
  \<open>lReturn\<close> and the state.
\<close>

function SoftEEPROM_WrapperWrite_loop ::
  "flash_dev \<Rightarrow> eeprom \<Rightarrow> nat \<Rightarrow> nat \<Rightarrow> 8 word list \<Rightarrow> int \<Rightarrow> (int \<times> eeprom) option" where
  "SoftEEPROM_WrapperWrite_loop dev s usAddress usSize' pucData lReturn =
     (if usSize' > 0 then
        if usAddress mod 2 = 1 \<or> usSize' = 1 then
          (case pucData of
             [] \<Rightarrow> None
           | b # pucData' \<Rightarrow>
               let usData0 = (case snd (SoftEEPROMRead s (word_of_nat (usAddress div 2))) of
                                None \<Rightarrow> 0xFFFF | Some (d, bFound) \<Rightarrow> d);
                   usData1 = (if usAddress mod 2 = 1
                              then (usData0 AND 0x00FF) OR push_bit 8 (ucast b)
                              else (usData0 AND 0xFF00) OR ucast b)
               in (case SoftEEPROMWrite dev s (word_of_nat (usAddress div 2)) usData1 of
                     None \<Rightarrow> None
                   | Some (lReturn', s') \<Rightarrow>
                       if lReturn' \<noteq> 0 then Some (lReturn', s')
                       else SoftEEPROM_WrapperWrite_loop dev s' ((usAddress + 1) mod 65536)
                              (usSize' - 1) pucData' lReturn'))
        else
          (case pucData of
             b0 # b1 # pucData' \<Rightarrow>
               let usData1 = ucast b0 OR push_bit 8 (ucast b1)
               in (case SoftEEPROMWrite dev s (word_of_nat (usAddress div 2)) usData1 of
                     None \<Rightarrow> None
                   | Some (lReturn', s') \<Rightarrow>
                       if lReturn' \<noteq> 0 then Some (lReturn', s')
                       else SoftEEPROM_WrapperWrite_loop dev s' ((usAddress + 2) mod 65536)
                              (usSize' - 2) pucData' lReturn')
           | _ \<Rightarrow> None)
      else Some (lReturn, s))"
  by pat_completeness auto
termination
  by (relation "measure (\<lambda>(dev, s, a, n, d, r). n)") auto

text \<open>
  \<open>ERR_PAGE_RANGE\<close> is defined in softeeprom_wrapper.h, which is not part of the sources:
  it is a parameter.  \<open>None\<close> stands for a call that does not return a value.
\<close>

definition SoftEEPROM_WrapperWrite ::
  "int \<Rightarrow> flash_dev \<Rightarrow> eeprom \<Rightarrow> 16 word \<Rightarrow> 16 word \<Rightarrow> 8 word list \<Rightarrow> (int \<times> eeprom) option" where
  "SoftEEPROM_WrapperWrite ERR_PAGE_RANGE dev s usAddress usSize' pucData =
     (if range_invalid usAddress usSize' then Some (ERR_PAGE_RANGE, s)
      else
        (case SoftEEPROM_WrapperWrite_loop dev s (unat usAddress) (unat usSize') pucData 0 of
           None \<Rightarrow> None
         | Some (lReturn, s') \<Rightarrow>
             if lReturn \<noteq> 0 then
               (case OutputErrorAndQuit lReturn of
                  None \<Rightarrow> None
                | Some u \<Rightarrow> Some (lReturn, s'))
             else Some (lReturn, s')))"

text \<open>
  The loop of \<open>SoftEEPROM_WrapperRead\<close>; \<open>buf\<close> collects the bytes stored through
  \<open>pucData\<close>.  \<open>usData\<close> keeps its value when \<open>SoftEEPROMRead\<close> returns before writing it.
\<close>

function SoftEEPROM_WrapperRead_loop ::
  "eeprom \<Rightarrow> nat \<Rightarrow> nat \<Rightarrow> 8 word list \<Rightarrow> 16 word \<Rightarrow> int \<Rightarrow> int \<times> 8 word list" where
  "SoftEEPROM_WrapperRead_loop s usAddress usSize' buf usData lReturn =
     (if usSize' > 0 then
        (case SoftEEPROMRead s (word_of_nat (usAddress div 2)) of
           (lReturn', out) \<Rightarrow>
             let usData1 = (case out of None \<Rightarrow> usData | Some (d, bFound) \<Rightarrow> d)
             in if usAddress mod 2 = 1 then
                  SoftEEPROM_WrapperRead_loop s ((usAddress + 1) mod 65536) (usSize' - 1)
                    (buf @ [ucast (drop_bit 8 usData1)]) usData1 lReturn'
                else if usSize' > 1 then
                  SoftEEPROM_WrapperRead_loop s ((usAddress + 2) mod 65536) (usSize' - 2)
                    (buf @ [ucast (usData1 AND 0x00FF), ucast (drop_bit 8 usData1)]) usData1 lReturn'
                else
                  SoftEEPROM_WrapperRead_loop s usAddress (usSize' - 1)
                    (buf @ [ucast (usData1 AND 0x00FF)]) usData1 lReturn')
      else (lReturn, buf))"
  by pat_completeness auto
termination
  by (relation "measure (\<lambda>(s, a, n, b, u, r). n)") auto

definition SoftEEPROM_WrapperRead ::
  "int \<Rightarrow> eeprom \<Rightarrow> 16 word \<Rightarrow> 16 word \<Rightarrow> (int \<times> 8 word list) option" where
  "SoftEEPROM_WrapperRead ERR_PAGE_RANGE s usAddress usSize' =
     (if range_invalid usAddress usSize' then Some (ERR_PAGE_RANGE, [])
      else
        (case SoftEEPROM_WrapperRead_loop s (unat usAddress) (unat usSize') [] 0 0 of
           (lReturn, buf) \<Rightarrow>
             if lReturn \<noteq> 0 then
               (case OutputErrorAndQuit lReturn of
                  None \<Rightarrow> None
                | Some u \<Rightarrow> Some (lReturn, buf))
             else Some (lReturn, buf)))"

section \<open>Notions used by the theorems\<close>

text \<open>A result with the initialized flag of its state overwritten.\<close>

definition set_flag :: "bool \<Rightarrow> int \<times> eeprom \<Rightarrow> int \<times> eeprom" where
  "set_flag b r = (fst r, (snd r)\<lparr>g_bEEPROMInitialized := b\<rparr>)"

text \<open>An active page whose last entry is not erased.\<close>

definition full_active :: "flash_mem \<Rightarrow> nat \<Rightarrow> nat \<Rightarrow> bool" where
  "full_active m pg p = (PageIsActive m p \<and> m (p + pg - 4) \<noteq> ERASED_WORD)"

text \<open>
  A sound device (the contract of the block device adapter): an erase that reports
  success has erased the unit, and a program command that reports success on erased words
  has stored the data.  Nothing is said about a command that reports a failure, nor about
  programming a word that is not erased.
\<close>

definition dev_ok :: "flash_dev \<Rightarrow> bool" where
  "dev_ok dev =
     ((\<forall>m a. fst (FlashErase dev m a) = 0 \<longrightarrow> snd (FlashErase dev m a) = erase_block m a) \<and>
      (\<forall>m d a n. fst (FlashProgram dev m d a n) = 0 \<and> (\<forall>i < n div 4. m (a + 4 * i) = ERASED_WORD)
           \<longrightarrow> snd (FlashProgram dev m d a n) = program_words m a (take (n div 4) d)))"

text \<open>The flash commands issued between two states all left a flash satisfying \<open>Q\<close>.\<close>

definition steps_from :: "eeprom \<Rightarrow> eeprom \<Rightarrow> (flash_mem \<Rightarrow> bool) \<Rightarrow> bool" where
  "steps_from s s' Q = (\<exists>ms. steps s' = steps s @ ms \<and> (\<forall>m \<in> set ms. Q m))"

text \<open>The static variables of the driver are the same in both states.\<close>

definition same_globals :: "eeprom \<Rightarrow> eeprom \<Rightarrow> bool" where
  "same_globals s s' =
     (g_pucEEPROMStart s' = g_pucEEPROMStart s \<and> g_pucEEPROMEnd s' = g_pucEEPROMEnd s \<and>
      g_ulEEPROMPgSize s' = g_ulEEPROMPgSize s \<and>
      g_bEEPROMInitialized s' = g_bEEPROMInitialized s \<and>
      g_pucActivePage s' = g_pucActivePage s \<and>
      g_pucNextAvailEntry s' = g_pucNextAvailEntry s)"

text \<open>The number of entries of a page.\<close>

definition cap :: "eeprom \<Rightarrow> nat" where
  "cap s = g_ulEEPROMPgSize s div 4 - 2"

text \<open>
  A region the model is exact for: what the ASSERTs of \<open>SoftEEPROMInit\<close> give, pointers
  that do not wrap around, and a page small enough for its entry count to fit the
  \<open>unsigned short\<close> counters of the scans.
\<close>

definition cfg_ok :: "eeprom \<Rightarrow> bool" where
  "cfg_ok s =
     (g_pucEEPROMStart s mod FLASH_ERASE_SIZE = 0 \<and>
      g_ulEEPROMPgSize s mod FLASH_ERASE_SIZE = 0 \<and>
      0 < g_ulEEPROMPgSize s \<and>
      g_pucEEPROMStart s + 2 * g_ulEEPROMPgSize s \<le> g_pucEEPROMEnd s \<and>
      g_ulEEPROMPgSize s div 4 < 65538 \<and>
      g_pucEEPROMEnd s + g_ulEEPROMPgSize s \<le> 2 ^ 32)"

text \<open>The number of entries in use, and their contents in the order they were written.\<close>

definition used :: "eeprom \<Rightarrow> nat" where
  "used s = (g_pucNextAvailEntry s - g_pucActivePage s - 8) div 4"

definition entries :: "eeprom \<Rightarrow> 32 word list" where
  "entries s = map (\<lambda>i. flash s (g_pucActivePage s + 8 + 4 * i)) [0..<used s]"

text \<open>An entry whose identifier \<open>SoftEEPROMWrite\<close> accepts.\<close>

definition valid_entry :: "32 word \<Rightarrow> bool" where
  "valid_entry e = (unat (usEntryID_of e) < NUM_IDS)"

text \<open>
  The state the driver keeps between calls: initialized, the active page one of the
  pages and not retired, the next available entry inside it or just past its end, the
  entries from there on erased, the entries before it written by \<open>SoftEEPROMWrite\<close>.
\<close>

definition state_ok :: "eeprom \<Rightarrow> bool" where
  "state_ok s =
     (cfg_ok s \<and> g_bEEPROMInitialized s \<and> g_pucActivePage s \<in> set (pages s) \<and>
      g_pucNextAvailEntry s = g_pucActivePage s + 8 + 4 * used s \<and> used s \<le> cap s \<and>
      flash s (g_pucActivePage s + 4) = ERASED_WORD \<and>
      (\<forall>i. used s \<le> i \<and> i < cap s \<longrightarrow> flash s (g_pucActivePage s + 8 + 4 * i) = ERASED_WORD) \<and>
      (\<forall>e \<in> set (entries s). valid_entry e))"

text \<open>The entry carries the identifier (the test of the read scan).\<close>

definition id_is :: "16 word \<Rightarrow> 32 word \<Rightarrow> bool" where
  "id_is k e = (drop_bit 16 e = ucast k)"

text \<open>
  The outcome \<open>(*pusData, *pbFound)\<close> of a read, from the list of the entries in the order
  they were written: the last entry with the identifier decides.
\<close>

definition lookup :: "16 word \<Rightarrow> 32 word list \<Rightarrow> 16 word \<times> bool" where
  "lookup k es =
     (case find (id_is k) (rev es) of
        None \<Rightarrow> (0xFFFF, False)
      | Some e \<Rightarrow> (ucast (e AND 0xFFFF), True))"

text \<open>The identifier of an entry, as a number.\<close>

definition ident :: "32 word \<Rightarrow> nat" where
  "ident e = unat (usEntryID_of e)"

text \<open>
  The entries a scan carries forward: each entry whose identifier has not occurred
  before it, in the order of the scan.
\<close>

definition keep :: "32 word list \<Rightarrow> 32 word list" where
  "keep xs = fold (\<lambda>e acc. if ident e \<in> ident ` set acc then acc else acc @ [e]) xs []"

text \<open>The last \<open>j\<close> entries of the page at \<open>full\<close>, the last one first.\<close>

definition tail_slots :: "eeprom \<Rightarrow> nat \<Rightarrow> nat \<Rightarrow> 32 word list" where
  "tail_slots b full j = map (\<lambda>i. flash b (full + 8 + 4 * (cap b - 1 - i))) [0..<j]"

text \<open>The number of pages that a flash content marks active.\<close>

definition active_count :: "eeprom \<Rightarrow> flash_mem \<Rightarrow> nat" where
  "active_count s m = length (filter (PageIsActive m) (pages s))"

text \<open>The active page of the driver is the one page marked active.\<close>

definition one_active :: "eeprom \<Rightarrow> bool" where
  "one_active s = (\<forall>p \<in> set (pages s). PageIsActive (flash s) p \<longleftrightarrow> p = g_pucActivePage s)"

text \<open>
  The pages marked active are the active page of the driver and, at most, the page after
  it while the active page is full: the second is what a reset between the two status
  writes of a compaction leaves, and what init then keeps.
\<close>

definition active_ok :: "eeprom \<Rightarrow> bool" where
  "active_ok s =
     (PageIsActive (flash s) (g_pucActivePage s) \<and>
      (\<forall>p \<in> set (pages s). PageIsActive (flash s) p \<longrightarrow>
         p = g_pucActivePage s \<or> p = next_page s (g_pucActivePage s) \<and> used s = cap s))"

text \<open>
  What the copy loop of \<open>PageSwap\<close> relies on: a sound device, the full page and the new
  page apart, valid entries all over the full page, the new page erased.
\<close>

definition swap_ctx :: "flash_dev \<Rightarrow> eeprom \<Rightarrow> nat \<Rightarrow> nat \<Rightarrow> bool" where
  "swap_ctx dev b full new =
     (dev_ok dev \<and> cfg_ok b \<and>
      (full + g_ulEEPROMPgSize b \<le> new \<or> new + g_ulEEPROMPgSize b \<le> full) \<and>
      (\<forall>i < cap b. valid_entry (flash b (full + 8 + 4 * i))) \<and>
      (\<forall>x. new \<le> x \<and> x < new + g_ulEEPROMPgSize b \<longrightarrow> flash b x = ERASED_WORD))"

text \<open>
  The invariant of the copy loop after \<open>j\<close> passes, \<open>b\<close> being the state the loop started
  in: the entries kept so far are the \<open>nf\<close> entries already flushed to the new page
  followed by the buffer.
\<close>

definition copy_inv :: "eeprom \<Rightarrow> nat \<Rightarrow> nat \<Rightarrow> nat \<Rightarrow> eeprom \<Rightarrow> swap_locals \<Rightarrow> bool" where
  "copy_inv b full new j s l =
     (\<exists>nf.
        pucUsedEntry l + 4 * j + 4 = full + g_ulEEPROMPgSize b \<and>
        length (ucIDSwapped l) = NUM_VECTOR_BYTES \<and>
        (\<forall>i < 128. bit (ucIDSwapped l ! (i div 8)) (i mod 8) \<longleftrightarrow> i \<in> ident ` set (tail_slots b full j)) \<and>
        keep (tail_slots b full j) = map (\<lambda>i. flash s (new + 8 + 4 * i)) [0..<nf] @ ulDataBuffer l \<and>
        pucNewEntry l = new + 8 + 4 * nf \<and>
        (\<forall>x. (\<forall>i < nf. x \<noteq> new + 8 + 4 * i) \<longrightarrow> flash s x = flash b x) \<and>
        ulByteCount l = word_of_nat ((if nf = 0 then 24 else 128) - 4 * length (ulDataBuffer l)) \<and>
        4 * length (ulDataBuffer l) < (if nf = 0 then 24 else 128) \<and>
        same_globals b s \<and>
        steps_from b s (\<lambda>m. \<forall>x. \<not> (new + 8 \<le> x \<and> x < new + g_ulEEPROMPgSize b) \<longrightarrow> m x = flash b x))"

text \<open>
  The flash contents a swap of the active page of \<open>s\<close> passes through: nothing changes
  outside the new page and the second status word of the full page; the new page is not
  yet marked, or it is marked with the next generation and the full page is either still
  active or already retired.
\<close>

definition swap_frame :: "eeprom \<Rightarrow> flash_mem \<Rightarrow> bool" where
  "swap_frame s m =
     (\<forall>x. \<not> (next_page s (g_pucActivePage s) \<le> x \<and>
               x < next_page s (g_pucActivePage s) + g_ulEEPROMPgSize s) \<and>
          x \<noteq> g_pucActivePage s + 4 \<longrightarrow> m x = flash s x)"

definition swap_marked :: "eeprom \<Rightarrow> flash_mem \<Rightarrow> bool" where
  "swap_marked s m =
     (m (next_page s (g_pucActivePage s)) = flash s (g_pucActivePage s) + 1 \<and>
      m (next_page s (g_pucActivePage s) + 4) = ERASED_WORD)"

definition in_swap :: "eeprom \<Rightarrow> flash_mem \<Rightarrow> bool" where
  "in_swap s m =
     (swap_frame s m \<and>
      (m (next_page s (g_pucActivePage s)) = ERASED_WORD \<and> m (g_pucActivePage s + 4) = ERASED_WORD \<or>
       swap_marked s m \<and> m (g_pucActivePage s + 4) = ERASED_WORD \<or>
       swap_marked s m \<and> m (g_pucActivePage s + 4) = 0))"

definition swapped :: "eeprom \<Rightarrow> flash_mem \<Rightarrow> bool" where
  "swapped s m = (swap_frame s m \<and> swap_marked s m \<and> m (g_pucActivePage s + 4) = 0)"

text \<open>What the copy loop and the final flush leave.\<close>

definition copied :: "eeprom \<Rightarrow> nat \<Rightarrow> nat \<Rightarrow> eeprom \<Rightarrow> nat \<Rightarrow> bool" where
  "copied b full new s pnew =
     (\<exists>nf. keep (tail_slots b full (cap b)) = map (\<lambda>i. flash s (new + 8 + 4 * i)) [0..<nf] \<and>
        pnew = new + 8 + 4 * nf \<and> nf \<le> cap b \<and>
        (\<forall>x. (\<forall>i < nf. x \<noteq> new + 8 + 4 * i) \<longrightarrow> flash s x = flash b x) \<and>
        same_globals b s \<and>
        steps_from b s (\<lambda>m. \<forall>x. \<not> (new + 8 \<le> x \<and> x < new + g_ulEEPROMPgSize b) \<longrightarrow> m x = flash b x))"

text \<open>The status words of all pages are those of \<open>s\<close>.\<close>

definition same_status :: "eeprom \<Rightarrow> flash_mem \<Rightarrow> bool" where
  "same_status s m = (\<forall>p \<in> set (pages s). m p = flash s p \<and> m (p + 4) = flash s (p + 4))"

text \<open>
  A sequence of writes, each of which returns 0; \<open>None\<close> when one of them fails or does
  not return.
\<close>

fun write_all :: "flash_dev \<Rightarrow> eeprom \<Rightarrow> (16 word \<times> 16 word) list \<Rightarrow> eeprom option" where
  "write_all dev s [] = Some s"
| "write_all dev s ((usID, usData) # ops) =
     (case SoftEEPROMWrite dev s usID usData of
        None \<Rightarrow> None
      | Some (rc, s') \<Rightarrow> if rc = 0 then write_all dev s' ops else None)"

text \<open>What init leaves, in terms of the state \<open>s\<close> it started from.\<close>

definition init_window :: "eeprom \<Rightarrow> eeprom \<Rightarrow> bool" where
  "init_window s s' =
     (steps_from s s' (\<lambda>m. active_count s m \<le> 1) \<and>
      pages s' = pages s \<and>
      active_count s (flash s') \<le> 2 \<and>
      (flash s' (g_pucActivePage s') \<noteq> ERASED_WORD \<longrightarrow> 1 \<le> active_count s (flash s')) \<and>
      (active_count s (flash s') = 2 \<longrightarrow> steps s' = steps s \<and> flash s' = flash s))"

text \<open>
  The equations of the loops are recursive under a condition: they are unfolded on
  request only.
\<close>

declare PageErase_loop.simps [simp del]
declare PageDataWrite_verify.simps [simp del]
declare page_addrs.simps [simp del]
declare SoftEEPROMRead_loop.simps [simp del]
declare Init_find_active.simps [simp del]
declare Init_find_full.simps [simp del]
declare SoftEEPROM_WrapperWrite_loop.simps [simp del]
declare SoftEEPROM_WrapperRead_loop.simps [simp del]

section \<open>Concrete media and devices\<close>

text \<open>
  The reference configuration of the application: the region \<open>0x3D000 .. 0x3E000\<close> in
  four pages of 1K bytes, on a flash of 256K bytes.
\<close>

definition blank :: eeprom where
  "blank = \<lparr> g_pucEEPROMStart = 0, g_pucEEPROMEnd = 0, g_ulEEPROMPgSize = 0,
      g_bEEPROMInitialized = False, g_pucActivePage = 0, g_pucNextAvailEntry = 0,
      flash = (\<lambda>a. ERASED_WORD), steps = [] \<rparr>"

definition ref_dev :: flash_dev where
  "ref_dev = nor_flash 0x40000"

text \<open>
  A flash with worn cells: the program command reports success and leaves the words as
  they were.
\<close>

definition worn_flash :: flash_dev where
  "worn_flash =
     \<lparr> FlashErase = (\<lambda>m a. (0, erase_block m a)),
       FlashProgram = (\<lambda>m d a n. (0, m)),
       SysCtlFlashSizeGet = 0x40000 \<rparr>"

text \<open>The driver right after its first start on an erased flash.\<close>

definition ready :: eeprom where
  "ready = \<lparr> g_pucEEPROMStart = 0x3D000, g_pucEEPROMEnd = 0x3E000, g_ulEEPROMPgSize = 0x400,
      g_bEEPROMInitialized = True, g_pucActivePage = 0x3D000, g_pucNextAvailEntry = 0x3D008,
      flash = (\<lambda>a. if a = 0x3D000 then 0 else ERASED_WORD), steps = [] \<rparr>"

text \<open>
  Two active pages; the first has its last entry programmed (so it counts as full) and
  the entry before it erased.
\<close>

definition two_active_flash :: flash_mem where
  "two_active_flash =
     (\<lambda>a. if a = 0x3D000 then 0 else if a = 0x3D3FC then 0x00010002
          else if a = 0x3D400 then 1 else ERASED_WORD)"

text \<open>
  The flash left by a reset during the first \<open>SoftEEPROMClear\<close> after the first start:
  the flash after the first program command of the clear (the old page marked used).
\<close>

definition clear_crashed :: flash_mem where
  "clear_crashed =
     hd (steps (snd (SoftEEPROMClear ref_dev
        ((snd (the (SoftEEPROMInit ref_dev blank 0x3D000 0x3E000 0x400)))\<lparr>steps := []\<rparr>))))"

text \<open>
  The reference region with its first page active and full: every entry carries
  identifier 1 and data 2.
\<close>

definition full_flash :: flash_mem where
  "full_flash =
     (\<lambda>a. if a = 0x3D000 then 0
          else if 0x3D008 \<le> a \<and> a < 0x3D400 then 0x00010002 else ERASED_WORD)"

definition full_page :: eeprom where
  "full_page = ready\<lparr>flash := full_flash, g_pucNextAvailEntry := 0x3D400\<rparr>"

text \<open>
  The flash a reset leaves between the two status writes of the first compaction of the
  reference region: the first page active, generation 0, and full of entries with
  identifier 1; the second page marked active with generation 1 and holding the one entry
  copied.  \<open>mid_swap\<close> is the driver after the init that follows.
\<close>

definition mid_swap_flash :: flash_mem where
  "mid_swap_flash =
     (\<lambda>a. if a = 0x3D000 then 0
          else if 0x3D008 \<le> a \<and> a < 0x3D400 then 0x00010002
          else if a = 0x3D400 then 1
          else if a = 0x3D408 then 0x00010002 else ERASED_WORD)"

definition mid_swap :: eeprom where
  "mid_swap = ready\<lparr>flash := mid_swap_flash, g_pucNextAvailEntry := 0x3D400\<rparr>"



section \<open>Evaluation lemmas\<close>

lemmas cdefs = ERASED_WORD_def MAX_SOFTEEPROM_IDS_def NUM_IDS_def NUM_VECTOR_BITS_def
  NUM_VECTOR_BYTES_def EEPROM_BOUNDARY_def FLASH_ERASE_SIZE_def ERR_NOT_INIT_def
  ERR_ILLEGAL_ID_def ERR_PG_ERASE_def ERR_PG_WRITE_def ERR_ACTIVE_PG_CNT_def ERR_RANGE_def
  ERR_AVAIL_ENTRY_def ERR_TWO_ACTIVE_NO_FULL_def ERR_SWAP_def

lemmas init_defs = SoftEEPROMInit_def Init_recover_def init_asserts_def Init_save_def GetActivePageCount_def
  GetUsedPageCount_def Init_no_active_def Init_one_active_def Init_two_active_def
  Init_activate_def GetNextAvailEntry_def GetMostRecentlyUsedPage_def pages_def

lemmas dev_defs = nor_flash_def erase_block_def erase_step_def program_step_def
  PageErase_def PageDataWrite_def PageIsActive_def PageIsUsed_def usSize_def next_page_def
  PageErase_loop.simps page_addrs.simps SoftEEPROMRead_loop.simps Init_find_active.simps
  Init_find_full.simps

lemma PageDataWrite_verify_0: "PageDataWrite_verify m d a c = 0"
  by (simp add: PageDataWrite_verify.simps)

lemma OutputErrorAndQuit_None: "OutputErrorAndQuit e = None"
proof -
  have "OutputErrorAndQuit e = Some u \<Longrightarrow> False" for u
    by (rule OutputErrorAndQuit.raw_induct [where P = "\<lambda>x y. False"]) blast+
  then show ?thesis by (cases "OutputErrorAndQuit e") auto
qed

lemma PageSwap_copy_numeral:
  "PageSwap_copy dev (numeral k) s l =
     (case PageSwap_entry dev s l of
        None \<Rightarrow> None
      | Some (rc, s', l') \<Rightarrow>
          if rc \<noteq> 0 then Some (rc, s', l') else PageSwap_copy dev (pred_numeral k) s' l')"
  by (simp add: numeral_eq_Suc)

lemma GetNextAvailEntry_loop_numeral:
  "GetNextAvailEntry_loop m (numeral k) p =
     (if m p = ERASED_WORD then p else GetNextAvailEntry_loop m (pred_numeral k) (p + 4))"
  by (simp add: numeral_eq_Suc)

section \<open>The driver on a sound device\<close>

lemma steps_from_refl [simp]: "steps_from s s Q"
  by (simp add: steps_from_def)

lemma steps_from_trans:
  "steps_from s s' Q \<Longrightarrow> steps_from s' s'' Q \<Longrightarrow> steps_from s s'' Q"
  by (auto simp: steps_from_def)

lemma steps_from_mono:
  "steps_from s s' Q \<Longrightarrow> (\<And>m. Q m \<Longrightarrow> Q' m) \<Longrightarrow> steps_from s s' Q'"
  by (auto simp: steps_from_def)

lemma steps_from_upd [simp]:
  "steps_from s (s'\<lparr>g_pucActivePage := a\<rparr>) Q = steps_from s s' Q"
  "steps_from s (s'\<lparr>g_pucNextAvailEntry := a\<rparr>) Q = steps_from s s' Q"
  by (simp_all add: steps_from_def)

lemma same_globals_refl [simp]: "same_globals s s"
  by (simp add: same_globals_def)

lemma same_globals_trans:
  "same_globals s s' \<Longrightarrow> same_globals s' s'' \<Longrightarrow> same_globals s s''"
  by (simp add: same_globals_def)

lemma program_words_other:
  "(\<And>i. i < length ds \<Longrightarrow> x \<noteq> a + 4 * i) \<Longrightarrow> program_words m a ds x = m x"
proof (induction ds arbitrary: m a)
  case Nil
  show ?case by simp
next
  case (Cons d ds)
  have "x \<noteq> a" using Cons.prems [of 0] by simp
  have "program_words (m(a := m a AND d)) (a + 4) ds x = (m(a := m a AND d)) x"
  proof (rule Cons.IH)
    fix i assume "i < length ds"
    then show "x \<noteq> a + 4 + 4 * i" using Cons.prems [of "Suc i"] by simp
  qed
  with \<open>x \<noteq> a\<close> show ?case by simp
qed

lemma program_words_at:
  "i < length ds \<Longrightarrow> program_words m a ds (a + 4 * i) = m (a + 4 * i) AND ds ! i"
proof (induction ds arbitrary: m a i)
  case Nil
  then show ?case by simp
next
  case (Cons d ds)
  show ?case
  proof (cases i)
    case 0
    have "program_words (m(a := m a AND d)) (a + 4) ds a = (m(a := m a AND d)) a"
      by (rule program_words_other) simp
    with 0 show ?thesis by simp
  next
    case (Suc j)
    with Cons.prems have "j < length ds" by simp
    then have "program_words (m(a := m a AND d)) (a + 4) ds (a + 4 + 4 * j) =
        (m(a := m a AND d)) (a + 4 + 4 * j) AND ds ! j"
      by (rule Cons.IH)
    moreover have "a + 4 * i = a + 4 + 4 * j" using Suc by simp
    ultimately show ?thesis using Suc by (simp add: add.assoc)
  qed
qed

lemma erase_step_ok:
  assumes "dev_ok dev" "erase_step dev s a = (0, s')"
  shows "s' = s\<lparr>flash := erase_block (flash s) a, steps := steps s @ [erase_block (flash s) a]\<rparr>"
proof -
  obtain rc m where e: "FlashErase dev (flash s) a = (rc, m)" by (cases "FlashErase dev (flash s) a")
  with assms(2) have "rc = 0" "s' = s\<lparr>flash := m, steps := steps s @ [m]\<rparr>"
    by (simp_all add: erase_step_def)
  moreover have "m = erase_block (flash s) a"
    using assms(1) e \<open>rc = 0\<close> unfolding dev_ok_def by (metis fst_conv snd_conv)
  ultimately show ?thesis by simp
qed

lemma program_step_ok:
  assumes "dev_ok dev" "program_step dev s d a n = (0, s')"
    and "\<forall>i < n div 4. flash s (a + 4 * i) = ERASED_WORD"
  shows "s' = s\<lparr>flash := program_words (flash s) a (take (n div 4) d),
                 steps := steps s @ [program_words (flash s) a (take (n div 4) d)]\<rparr>"
proof -
  obtain rc m where e: "FlashProgram dev (flash s) d a n = (rc, m)"
    by (cases "FlashProgram dev (flash s) d a n")
  with assms(2) have "rc = 0" "s' = s\<lparr>flash := m, steps := steps s @ [m]\<rparr>"
    by (simp_all add: program_step_def)
  moreover have "m = program_words (flash s) a (take (n div 4) d)"
    using assms(1,3) e \<open>rc = 0\<close> unfolding dev_ok_def by (metis fst_conv snd_conv)
  ultimately show ?thesis by simp
qed

lemma PageDataWrite_rc:
  "PageDataWrite dev s d a n = (rc, s') \<Longrightarrow> rc = 0 \<or> rc = -1"
  by (auto simp: PageDataWrite_def PageDataWrite_verify_0 split: prod.splits if_splits)

lemma PageDataWrite_ok:
  assumes "dev_ok dev" "PageDataWrite dev s d a n = (0, s')"
    and "\<forall>i < n div 4. flash s (a + 4 * i) = ERASED_WORD"
  shows "s' = s\<lparr>flash := program_words (flash s) a (take (n div 4) d),
                 steps := steps s @ [program_words (flash s) a (take (n div 4) d)]\<rparr>"
proof -
  obtain rc s1 where e: "program_step dev s d a n = (rc, s1)" by (cases "program_step dev s d a n")
  with assms(2) have "rc = 0" "s1 = s'"
    by (auto simp: PageDataWrite_def PageDataWrite_verify_0 split: if_splits)
  with e assms(1,3) show ?thesis using program_step_ok by blast
qed

lemma page_addrs_iff:
  "0 < pg \<Longrightarrow> p \<in> set (page_addrs st e pg) \<longleftrightarrow> (\<exists>k. p = st + k * pg \<and> p < e)"
proof (induction st e pg rule: page_addrs.induct)
  case (1 st e pg)
  show ?case
  proof (cases "st < e")
    case False
    then have "page_addrs st e pg = []" by (simp add: page_addrs.simps [of st e pg])
    moreover have "\<not> (\<exists>k. p = st + k * pg \<and> p < e)" using False by auto
    ultimately show ?thesis by simp
  next
    case True
    with "1.prems" have u: "page_addrs st e pg = st # page_addrs (st + pg) e pg"
      by (simp add: page_addrs.simps [of st e pg])
    have ih: "p \<in> set (page_addrs (st + pg) e pg) \<longleftrightarrow> (\<exists>k. p = st + pg + k * pg \<and> p < e)"
      using "1.IH" True "1.prems" by simp
    show ?thesis
    proof
      assume "p \<in> set (page_addrs st e pg)"
      with u ih consider "p = st" | k where "p = st + pg + k * pg" "p < e" by auto
      then show "\<exists>k. p = st + k * pg \<and> p < e"
      proof cases
        case 1
        with True show ?thesis by (intro exI [of _ 0]) simp
      next
        case 2
        then show ?thesis by (intro exI [of _ "Suc k"]) simp
      qed
    next
      assume "\<exists>k. p = st + k * pg \<and> p < e"
      then obtain k where k: "p = st + k * pg" "p < e" by blast
      show "p \<in> set (page_addrs st e pg)"
      proof (cases k)
        case 0
        with k u show ?thesis by simp
      next
        case (Suc j)
        with k have "p = st + pg + j * pg" by simp
        with k ih u show ?thesis by auto
      qed
    qed
  qed
qed

lemma page_addrs_distinct: "distinct (page_addrs st e pg)"
proof (induction st e pg rule: page_addrs.induct)
  case (1 st e pg)
  show ?case
  proof (cases "st < e \<and> 0 < pg")
    case False
    then have "page_addrs st e pg = []"
      using page_addrs.simps [of st e pg] by auto
    then show ?thesis by simp
  next
    case True
    then have "st \<notin> set (page_addrs (st + pg) e pg)"
      by (auto simp: page_addrs_iff)
    with True "1.IH" show ?thesis by (simp add: page_addrs.simps [of st e pg])
  qed
qed

lemma cfg_pg:
  assumes "cfg_ok s"
  shows "g_ulEEPROMPgSize s = 8 + 4 * cap s" "0 < cap s" "usSize s = cap s"
    "g_ulEEPROMPgSize s = (g_ulEEPROMPgSize s div FLASH_ERASE_SIZE) * FLASH_ERASE_SIZE"
    "1024 \<le> g_ulEEPROMPgSize s"
proof -
  let ?pg = "g_ulEEPROMPgSize s"
  from assms have m: "?pg mod 1024 = 0" "0 < ?pg" "?pg div 4 < 65538"
    by (simp_all add: cfg_ok_def FLASH_ERASE_SIZE_def)
  then have "1024 dvd ?pg" by (simp add: dvd_eq_mod_eq_0)
  then obtain q where q: "?pg = 1024 * q" by (auto simp: dvd_def)
  with m have q0: "0 < q" by simp
  have d: "?pg div 4 = 256 * q" using q by simp
  show "1024 \<le> ?pg" using q q0 by simp
  show "?pg = 8 + 4 * cap s" using q q0 by (simp add: cap_def d)
  show "0 < cap s" using q0 by (simp add: cap_def d)
  show "?pg = (?pg div FLASH_ERASE_SIZE) * FLASH_ERASE_SIZE"
    using q by (simp add: FLASH_ERASE_SIZE_def)
  have "(word_of_nat (?pg div 4) :: 32 word) - 2 = word_of_nat (?pg div 4 - 2)"
    using q0 by (simp add: d of_nat_diff)
  moreover have "?pg div 4 - 2 < 65536" using m by simp
  ultimately show "usSize s = cap s"
    by (simp add: usSize_def cap_def unat_of_nat take_bit_nat_eq_self unsigned_ucast_eq)
qed

lemma steps_from_step:
  "steps s' = steps s @ [m] \<Longrightarrow> Q m \<Longrightarrow> steps_from s s' Q"
  by (simp add: steps_from_def)

lemma PageErase_loop_unfold:
  "a < lim \<Longrightarrow> PageErase_loop dev s a lim =
     (case erase_step dev s a of
        (rc, s') \<Rightarrow> if rc \<noteq> 0 then (-1, s') else PageErase_loop dev s' (a + FLASH_ERASE_SIZE) lim)"
  by (simp add: PageErase_loop.simps [of dev s a lim])

lemma PageErase_loop_ok:
  assumes "dev_ok dev"
  shows "a mod FLASH_ERASE_SIZE = 0 \<Longrightarrow>
     PageErase_loop dev s a (a + k * FLASH_ERASE_SIZE) = (0, s') \<Longrightarrow>
     same_globals s s' \<and>
     (\<forall>x. flash s' x = (if a \<le> x \<and> x < a + k * FLASH_ERASE_SIZE then ERASED_WORD else flash s x)) \<and>
     steps_from s s' (\<lambda>m. (\<forall>x. \<not> (a \<le> x \<and> x < a + k * FLASH_ERASE_SIZE) \<longrightarrow> m x = flash s x) \<and>
                          (\<forall>x. a \<le> x \<and> x < a + FLASH_ERASE_SIZE \<longrightarrow> m x = ERASED_WORD))"
proof (induction k arbitrary: s a)
  case 0
  then have "s' = s" by (simp add: PageErase_loop.simps [of dev s a a])
  then show ?case by auto
next
  case (Suc k)
  let ?F = FLASH_ERASE_SIZE
  define lim where "lim = a + Suc k * ?F"
  have lt: "a < lim" by (simp add: lim_def FLASH_ERASE_SIZE_def)
  have lim': "lim = a + ?F + k * ?F" by (simp add: lim_def)
  obtain rc s1 where e: "erase_step dev s a = (rc, s1)" by (cases "erase_step dev s a")
  from Suc.prems(2) have run: "PageErase_loop dev s a lim = (0, s')" by (simp add: lim_def)
  from run e have rc: "rc = 0"
    by (simp add: PageErase_loop_unfold [OF lt] split: if_splits)
  with run e have "PageErase_loop dev s1 (a + ?F) lim = (0, s')"
    by (simp add: PageErase_loop_unfold [OF lt])
  then have rec: "PageErase_loop dev s1 (a + ?F) (a + ?F + k * ?F) = (0, s')"
    by (simp only: lim')
  from erase_step_ok [OF assms] e rc
  have s1: "s1 = s\<lparr>flash := erase_block (flash s) a, steps := steps s @ [erase_block (flash s) a]\<rparr>"
    by simp
  have eb: "erase_block (flash s) a x = (if a \<le> x \<and> x < a + ?F then ERASED_WORD else flash s x)" for x
    using Suc.prems(1) by (simp add: erase_block_def)
  have "(a + ?F) mod ?F = 0" using Suc.prems(1) by simp
  from Suc.IH [OF this rec]
  have ih0: "same_globals s1 s'"
    "\<And>x. flash s' x = (if a + ?F \<le> x \<and> x < a + ?F + k * ?F then ERASED_WORD else flash s1 x)"
    "steps_from s1 s' (\<lambda>m. (\<forall>x. \<not> (a + ?F \<le> x \<and> x < a + ?F + k * ?F) \<longrightarrow> m x = flash s1 x) \<and>
                          (\<forall>x. a + ?F \<le> x \<and> x < a + ?F + ?F \<longrightarrow> m x = ERASED_WORD))"
    by simp_all
  note ih = ih0(1,2) steps_from_mono [OF ih0(3),
      of "\<lambda>m. \<forall>x. \<not> (a + ?F \<le> x \<and> x < a + ?F + k * ?F) \<longrightarrow> m x = flash s1 x", simplified]
  have g: "same_globals s s'" using ih(1) s1 by (simp add: same_globals_def)
  have f: "flash s' x = (if a \<le> x \<and> x < lim then ERASED_WORD else flash s x)" for x
    using ih(2) [of x] s1 eb [of x] by (auto simp: lim')
  let ?Q = "\<lambda>m. (\<forall>x. \<not> (a \<le> x \<and> x < lim) \<longrightarrow> m x = flash s x) \<and>
                 (\<forall>x. a \<le> x \<and> x < a + ?F \<longrightarrow> m x = ERASED_WORD)"
  have st1: "steps_from s s1 ?Q"
    by (rule steps_from_step [where m = "erase_block (flash s) a"]) (auto simp: s1 eb lim')
  have st2: "steps_from s1 s' ?Q"
    by (rule steps_from_mono [OF ih(3)]) (auto simp: s1 eb lim')
  show ?case using g f steps_from_trans [OF st1 st2] unfolding lim_def by simp
qed

lemma PageErase_ok:
  assumes "dev_ok dev" "cfg_ok s" "p mod FLASH_ERASE_SIZE = 0" "PageErase dev s p = (0, s')"
  shows "same_globals s s'"
    and "\<And>x. flash s' x = (if p \<le> x \<and> x < p + g_ulEEPROMPgSize s then ERASED_WORD else flash s x)"
    and "steps_from s s' (\<lambda>m. (\<forall>x. \<not> (p \<le> x \<and> x < p + g_ulEEPROMPgSize s) \<longrightarrow> m x = flash s x) \<and>
                             m p = ERASED_WORD \<and> m (p + 4) = ERASED_WORD)"
proof -
  let ?k = "g_ulEEPROMPgSize s div FLASH_ERASE_SIZE"
  have pg: "g_ulEEPROMPgSize s = ?k * FLASH_ERASE_SIZE" using cfg_pg(4) [OF assms(2)] .
  obtain rc s1 where l: "PageErase_loop dev s p (p + g_ulEEPROMPgSize s) = (rc, s1)"
    by (cases "PageErase_loop dev s p (p + g_ulEEPROMPgSize s)")
  with assms(4) have "rc = 0" "s1 = s'"
    by (auto simp: PageErase_def split: if_splits)
  with l have "PageErase_loop dev s p (p + ?k * FLASH_ERASE_SIZE) = (0, s')"
    using pg by simp
  from PageErase_loop_ok [OF assms(1,3) this]
  have r: "same_globals s s'"
    "\<And>x. flash s' x = (if p \<le> x \<and> x < p + ?k * FLASH_ERASE_SIZE then ERASED_WORD else flash s x)"
    "steps_from s s' (\<lambda>m. (\<forall>x. \<not> (p \<le> x \<and> x < p + ?k * FLASH_ERASE_SIZE) \<longrightarrow> m x = flash s x) \<and>
                          (\<forall>x. p \<le> x \<and> x < p + FLASH_ERASE_SIZE \<longrightarrow> m x = ERASED_WORD))"
    by simp_all
  show "same_globals s s'" by (rule r(1))
  show "flash s' x = (if p \<le> x \<and> x < p + g_ulEEPROMPgSize s then ERASED_WORD else flash s x)" for x
    using r(2) [of x] pg by simp
  show "steps_from s s' (\<lambda>m. (\<forall>x. \<not> (p \<le> x \<and> x < p + g_ulEEPROMPgSize s) \<longrightarrow> m x = flash s x) \<and>
                             m p = ERASED_WORD \<and> m (p + 4) = ERASED_WORD)"
    by (rule steps_from_mono [OF r(3)]) (use pg in \<open>auto simp: FLASH_ERASE_SIZE_def\<close>)
qed

lemma make_entry_id [simp]: "usEntryID_of (make_entry k v) = k"
  unfolding usEntryID_of_def make_entry_def
  by (rule bit_word_eqI) (auto simp: bit_simps dest: bit_imp_le_length)

lemma make_entry_hi: "drop_bit 16 (make_entry k v) = ucast k"
  unfolding make_entry_def
  by (rule bit_word_eqI) (auto simp: bit_simps dest: bit_imp_le_length)

lemma make_entry_lo [simp]: "ucast (make_entry k v AND 0xFFFF) = v"
proof -
  have m: "(0xFFFF :: 32 word) = mask 16" by (simp add: mask_eq_exp_minus_1)
  show ?thesis
    unfolding make_entry_def m
    by (intro bit_word_eqI) (auto simp: bit_simps dest: bit_imp_le_length)
qed

lemma ucast_16_32_id: "(ucast (ucast (k :: 16 word) :: 32 word) :: 16 word) = k"
  by (rule bit_word_eqI) (simp add: bit_simps)

lemma id_is_make_entry [simp]: "id_is k' (make_entry k v) \<longleftrightarrow> k' = k"
  unfolding id_is_def make_entry_hi by (metis ucast_16_32_id)

lemma erased_and [simp]: "ERASED_WORD AND e = e"
proof -
  have m: "ERASED_WORD = (mask 32 :: 32 word)"
    by (simp add: ERASED_WORD_def mask_eq_exp_minus_1)
  have "mask 32 AND e = e"
    by (rule bit_word_eqI) (simp add: bit_simps)
  then show ?thesis unfolding m .
qed

lemma lookup_append [simp]:
  "lookup k' (es @ [make_entry k v]) = (if k' = k then (v, True) else lookup k' es)"
  by (simp add: lookup_def)

lemma Read_loop_entries:
  "SoftEEPROMRead_loop s k (g_pucActivePage s + 8 + 4 * n - 4) out =
     (case find (id_is k) (rev (map (\<lambda>i. flash s (g_pucActivePage s + 8 + 4 * i)) [0..<n])) of
        None \<Rightarrow> out
      | Some e \<Rightarrow> (ucast (e AND 0xFFFF), True))"
proof (induction n)
  case 0
  show ?case
    by (simp add: SoftEEPROMRead_loop.simps [of s k "4 + g_pucActivePage s" out])
next
  case (Suc n)
  have p: "g_pucActivePage s + 8 + 4 * Suc n - 4 = g_pucActivePage s + 8 + 4 * n" by simp
  show ?case
    unfolding p
    using Suc.IH
    by (simp add: SoftEEPROMRead_loop.simps [of s k "g_pucActivePage s + 8 + 4 * n" out] id_is_def)
qed

lemma state_ok_active:
  assumes "state_ok s"
  shows "g_pucActivePage s < g_pucEEPROMEnd s" "g_pucEEPROMStart s \<le> g_pucActivePage s"
    "g_pucActivePage s mod FLASH_ERASE_SIZE = 0"
proof -
  from assms have c: "cfg_ok s" and a: "g_pucActivePage s \<in> set (pages s)" by (simp_all add: state_ok_def)
  from c have pg: "0 < g_ulEEPROMPgSize s" by (simp add: cfg_ok_def)
  from a obtain k where k: "g_pucActivePage s = g_pucEEPROMStart s + k * g_ulEEPROMPgSize s"
      "g_pucActivePage s < g_pucEEPROMEnd s"
    by (auto simp: pages_def page_addrs_iff [OF pg])
  then show "g_pucActivePage s < g_pucEEPROMEnd s" "g_pucEEPROMStart s \<le> g_pucActivePage s"
    by simp_all
  from c have "g_pucEEPROMStart s mod FLASH_ERASE_SIZE = 0" "g_ulEEPROMPgSize s mod FLASH_ERASE_SIZE = 0"
    by (simp_all add: cfg_ok_def)
  with k(1) show "g_pucActivePage s mod FLASH_ERASE_SIZE = 0"
    by (simp add: mod_add_eq [symmetric] mod_mult_eq [symmetric]) 
qed

lemma Read_ok:
  assumes "state_ok s" "unat k < NUM_IDS"
  shows "SoftEEPROMRead s k = (0, Some (lookup k (entries s)))"
proof -
  from assms(1) have n: "g_pucNextAvailEntry s = g_pucActivePage s + 8 + 4 * used s"
    and u: "used s \<le> cap s" and c: "cfg_ok s" and i: "g_bEEPROMInitialized s"
    by (simp_all add: state_ok_def)
  have "g_pucNextAvailEntry s \<le> g_pucActivePage s + g_ulEEPROMPgSize s"
    using n u cfg_pg(1) [OF c] by simp
  moreover have "g_pucEEPROMEnd s + g_ulEEPROMPgSize s \<le> 2 ^ 32" using c by (simp add: cfg_ok_def)
  ultimately have "g_pucNextAvailEntry s < 2 ^ 32" using state_ok_active(1) [OF assms(1)] by simp
  moreover have "4 \<le> g_pucNextAvailEntry s" using n by simp
  ultimately have "(g_pucNextAvailEntry s + 2 ^ 32 - 4) mod 2 ^ 32 = g_pucNextAvailEntry s - 4"
    by (simp add: mod_if)
  then show ?thesis
    using assms(2) i n Read_loop_entries [of s k "used s" "(0xFFFF, False)"]
    by (simp add: SoftEEPROMRead_def lookup_def entries_def)
qed

lemma keep_Nil [simp]: "keep [] = []"
  by (simp add: keep_def)

lemma keep_snoc:
  "keep (xs @ [e]) = (if ident e \<in> ident ` set (keep xs) then keep xs else keep xs @ [e])"
  by (simp add: keep_def)

lemma keep_ids: "ident ` set (keep xs) = ident ` set xs"
  by (induction xs rule: rev_induct) (auto simp: keep_snoc)

lemma keep_subset: "set (keep xs) \<subseteq> set xs"
  by (induction xs rule: rev_induct) (auto simp: keep_snoc)

lemma keep_length: "length (keep xs) \<le> length xs"
  by (induction xs rule: rev_induct) (auto simp: keep_snoc)

lemma keep_distinct: "distinct (map ident (keep xs))"
  by (induction xs rule: rev_induct) (auto simp: keep_snoc)

lemma id_is_ident: "id_is k e \<longleftrightarrow> ident e = unat k"
proof -
  have "drop_bit 16 e = ucast (usEntryID_of e)"
    unfolding usEntryID_of_def
    by (rule bit_word_eqI) (auto simp: bit_simps dest: bit_imp_le_length)
  then have "id_is k e \<longleftrightarrow> usEntryID_of e = k"
    unfolding id_is_def by (metis ucast_16_32_id)
  then show ?thesis by (auto simp: ident_def word_unat_eq_iff)
qed

lemma find_append:
  "find P (xs @ ys) = (case find P xs of None \<Rightarrow> find P ys | Some x \<Rightarrow> Some x)"
  by (induction xs) simp_all

lemma find_keep: "find (id_is k) (keep xs) = find (id_is k) xs"
proof (induction xs rule: rev_induct)
  case Nil
  show ?case by simp
next
  case (snoc e xs)
  show ?case
  proof (cases "find (id_is k) xs")
    case (Some y)
    then show ?thesis using snoc by (simp add: keep_snoc find_append)
  next
    case None
    then have n: "\<forall>x \<in> set xs. \<not> id_is k x" by (simp add: find_None_iff)
    show ?thesis
    proof (cases "id_is k e")
      case False
      then show ?thesis using snoc None by (simp add: keep_snoc find_append)
    next
      case True
      then have "ident e \<notin> ident ` set xs" using n by (auto simp: id_is_ident)
      then show ?thesis using snoc None True by (simp add: keep_snoc keep_ids find_append)
    qed
  qed
qed

lemma find_rev_distinct:
  "distinct (map ident xs) \<Longrightarrow> find (id_is k) (rev xs) = find (id_is k) xs"
proof (induction xs)
  case Nil
  show ?case by simp
next
  case (Cons x xs)
  show ?case
  proof (cases "id_is k x")
    case True
    then have "\<forall>y \<in> set xs. \<not> id_is k y"
      using Cons.prems by (auto simp: id_is_ident image_iff)
    then have "find (id_is k) (rev xs) = None" by (simp add: find_None_iff)
    with True show ?thesis by (simp add: find_append)
  next
    case False
    with Cons show ?thesis by (simp add: find_append split: option.splits)
  qed
qed

lemma lookup_keep_rev: "lookup k (keep (rev es)) = lookup k es"
  by (simp add: lookup_def find_rev_distinct [OF keep_distinct] find_keep)

lemma pages_disjoint:
  assumes "0 < g_ulEEPROMPgSize s" "p \<in> set (pages s)" "q \<in> set (pages s)" "p \<noteq> q"
  shows "p + g_ulEEPROMPgSize s \<le> q \<or> q + g_ulEEPROMPgSize s \<le> p"
proof -
  let ?pg = "g_ulEEPROMPgSize s"
  from assms obtain k k' where k: "p = g_pucEEPROMStart s + k * ?pg" "q = g_pucEEPROMStart s + k' * ?pg"
    by (auto simp: pages_def page_addrs_iff)
  with assms(4) have "k \<noteq> k'" by auto
  then consider "Suc k \<le> k'" | "Suc k' \<le> k" by linarith
  then show ?thesis
  proof cases
    case 1
    then have "Suc k * ?pg \<le> k' * ?pg" by (rule mult_le_mono1)
    with k show ?thesis by simp
  next
    case 2
    then have "Suc k' * ?pg \<le> k * ?pg" by (rule mult_le_mono1)
    with k show ?thesis by simp
  qed
qed

lemma pages_aligned:
  assumes "cfg_ok s" "p \<in> set (pages s)"
  shows "p mod FLASH_ERASE_SIZE = 0" "p < g_pucEEPROMEnd s"
proof -
  from assms(1) have pg: "0 < g_ulEEPROMPgSize s" by (simp add: cfg_ok_def)
  from assms(2) obtain k where k: "p = g_pucEEPROMStart s + k * g_ulEEPROMPgSize s"
      "p < g_pucEEPROMEnd s"
    by (auto simp: pages_def page_addrs_iff [OF pg])
  then show "p < g_pucEEPROMEnd s" by simp
  from assms(1) have "g_pucEEPROMStart s mod FLASH_ERASE_SIZE = 0" "g_ulEEPROMPgSize s mod FLASH_ERASE_SIZE = 0"
    by (simp_all add: cfg_ok_def)
  with k(1) show "p mod FLASH_ERASE_SIZE = 0"
    by (simp add: mod_add_eq [symmetric] mod_mult_eq [symmetric])
qed

lemma next_page_in_pages:
  assumes "cfg_ok s" "p \<in> set (pages s)"
  shows "next_page s p \<in> set (pages s)" "next_page s p \<noteq> p"
proof -
  let ?pg = "g_ulEEPROMPgSize s"
  from assms(1) have pg: "0 < ?pg" and two: "g_pucEEPROMStart s + 2 * ?pg \<le> g_pucEEPROMEnd s"
    by (simp_all add: cfg_ok_def)
  from assms(2) obtain k where k: "p = g_pucEEPROMStart s + k * ?pg" "p < g_pucEEPROMEnd s"
    by (auto simp: pages_def page_addrs_iff [OF pg])
  show "next_page s p \<in> set (pages s)"
  proof (cases "p + ?pg < g_pucEEPROMEnd s")
    case True
    moreover have "p + ?pg = g_pucEEPROMStart s + Suc k * ?pg" using k by simp
    ultimately show ?thesis
      unfolding next_page_def pages_def page_addrs_iff [OF pg] by (simp only: if_True) blast
  next
    case False
    moreover have "g_pucEEPROMStart s = g_pucEEPROMStart s + 0 * ?pg" by simp
    moreover have "g_pucEEPROMStart s < g_pucEEPROMEnd s" using two pg by simp
    ultimately show ?thesis
      unfolding next_page_def pages_def page_addrs_iff [OF pg] by (simp only: if_False) blast
  qed
  show "next_page s p \<noteq> p"
  proof (cases "p + ?pg < g_pucEEPROMEnd s")
    case True
    then show ?thesis using pg by (simp add: next_page_def)
  next
    case False
    have "k \<noteq> 0"
    proof
      assume "k = 0"
      with k have "p + ?pg < g_pucEEPROMEnd s" using two pg by simp
      with False show False ..
    qed
    then obtain j where "k = Suc j" by (cases k) auto
    with k pg have "g_pucEEPROMStart s < p" by simp
    with False show ?thesis by (simp add: next_page_def)
  qed
qed

lemma active_count_cong:
  "(\<And>p. p \<in> set (pages s) \<Longrightarrow> PageIsActive m p = PageIsActive m' p)
     \<Longrightarrow> active_count s m = active_count s m'"
  unfolding active_count_def by (metis (mono_tags, lifting) filter_cong)

lemma pages_distinct: "distinct (pages s)"
  by (simp add: pages_def page_addrs_distinct)

lemma active_count_1:
  assumes "a \<in> set (pages s)" "\<And>p. p \<in> set (pages s) \<Longrightarrow> PageIsActive m p \<longleftrightarrow> p = a"
  shows "active_count s m = 1"
proof -
  have "{x \<in> set (pages s). PageIsActive m x} = {a}" using assms by auto
  then show ?thesis
    by (simp add: active_count_def distinct_length_filter [OF pages_distinct] Int_def conj_commute)
qed

lemma active_count_2:
  assumes "a \<in> set (pages s)" "b \<in> set (pages s)" "a \<noteq> b"
    "\<And>p. p \<in> set (pages s) \<Longrightarrow> PageIsActive m p \<longleftrightarrow> p = a \<or> p = b"
  shows "active_count s m = 2"
proof -
  have "{x \<in> set (pages s). PageIsActive m x} = {a, b}" using assms by auto
  then show ?thesis
    using assms(3)
    by (simp add: active_count_def distinct_length_filter [OF pages_distinct] Int_def conj_commute)
qed

lemma active_count_0:
  assumes "\<And>p. p \<in> set (pages s) \<Longrightarrow> \<not> PageIsActive m p"
  shows "active_count s m = 0"
  using assms by (simp add: active_count_def)

lemma vec_test:
  "k < 8 \<Longrightarrow> ((w :: 8 word) AND push_bit k 1 = 0) \<longleftrightarrow> \<not> bit w k"
  by (simp add: push_bit_of_1 and_exp_eq_0_iff_not_bit)

lemma vec_set:
  assumes "length v = 16" "n < 128" "i < 128"
  shows "bit ((v[n div 8 := (v ! (n div 8)) OR push_bit (n mod 8) (1 :: 8 word)]) ! (i div 8)) (i mod 8)
           \<longleftrightarrow> bit (v ! (i div 8)) (i mod 8) \<or> i = n"
proof (cases "i div 8 = n div 8")
  case False
  then have "i \<noteq> n" by auto
  with False show ?thesis by simp
next
  case True
  have "i = n \<longleftrightarrow> i mod 8 = n mod 8"
    using True by (metis div_mult_mod_eq)
  moreover have "n div 8 < length v" using assms by simp
  ultimately show ?thesis
    using True by (auto simp: bit_simps)
qed

lemma tail_slots_Suc:
  "tail_slots b full (Suc j) = tail_slots b full j @ [flash b (full + 8 + 4 * (cap b - 1 - j))]"
  by (simp add: tail_slots_def)

lemma tail_slots_length [simp]: "length (tail_slots b full j) = j"
  by (simp add: tail_slots_def)

lemma map_upt_add:
  "map f [0..<n + k] = map f [0..<n] @ map (\<lambda>i. f (n + i)) [0..<k]"
  by (induction k) simp_all

lemma map_upt_nth:
  "\<forall>i < length ds. f i = ds ! i \<Longrightarrow> map f [0..<length ds] = ds"
  by (rule nth_equalityI) simp_all

lemma program_words_erased:
  assumes "\<forall>i < length ds. m (a + 4 * i) = ERASED_WORD"
  shows "map (\<lambda>i. program_words m a ds (a + 4 * i)) [0..<length ds] = ds"
  by (rule nth_equalityI) (simp_all add: program_words_at assms)

lemma PageSwap_entry_step:
  assumes ctx: "swap_ctx dev b full new" and inv: "copy_inv b full new j s l" and j: "j < cap b"
  shows "\<exists>rc s' l'. PageSwap_entry dev s l = Some (rc, s', l') \<and>
           (rc = 0 \<longrightarrow> copy_inv b full new (Suc j) s' l')"
proof -
  let ?pg = "g_ulEEPROMPgSize b" and ?c = "cap b"
  let ?T = "tail_slots b full j"
  from ctx have dev: "dev_ok dev" and cfg: "cfg_ok b"
    and dis: "full + ?pg \<le> new \<or> new + ?pg \<le> full"
    and val: "\<forall>i < ?c. valid_entry (flash b (full + 8 + 4 * i))"
    and er: "\<forall>x. new \<le> x \<and> x < new + ?pg \<longrightarrow> flash b x = ERASED_WORD"
    by (simp_all add: swap_ctx_def)
  have pg: "?pg = 8 + 4 * ?c" by (rule cfg_pg(1) [OF cfg])
  from inv obtain nf where
    A: "pucUsedEntry l + 4 * j + 4 = full + ?pg"
    and B1: "length (ucIDSwapped l) = NUM_VECTOR_BYTES"
    and B2: "\<forall>i < 128. bit (ucIDSwapped l ! (i div 8)) (i mod 8) \<longleftrightarrow> i \<in> ident ` set ?T"
    and C: "keep ?T = map (\<lambda>i. flash s (new + 8 + 4 * i)) [0..<nf] @ ulDataBuffer l"
    and D: "pucNewEntry l = new + 8 + 4 * nf"
    and E: "\<forall>x. (\<forall>i < nf. x \<noteq> new + 8 + 4 * i) \<longrightarrow> flash s x = flash b x"
    and F1: "ulByteCount l = word_of_nat ((if nf = 0 then 24 else 128) - 4 * length (ulDataBuffer l))"
    and F2: "4 * length (ulDataBuffer l) < (if nf = 0 then 24 else 128)"
    and G: "same_globals b s"
    and H: "steps_from b s (\<lambda>m. \<forall>x. \<not> (new + 8 \<le> x \<and> x < new + ?pg) \<longrightarrow> m x = flash b x)"
    unfolding copy_inv_def by blast
  define a where "a = pucUsedEntry l"
  define e where "e = flash s a"
  define buf where "buf = ulDataBuffer l"
  define vec where "vec = ucIDSwapped l"
  define C0 :: nat where "C0 = (if nf = 0 then 24 else 128)"
  have a: "a = full + 8 + 4 * (?c - 1 - j)" using A pg j by (simp add: a_def)
  have "length (keep ?T) \<le> j" using keep_length [of ?T] by simp
  then have nfb: "nf + length buf \<le> j" using C by (simp add: buf_def)
  have apart: "a \<noteq> new + 8 + 4 * i" if "i < ?c" for i
    using dis a pg j that by auto
  have eb: "e = flash b a"
    unfolding e_def using E apart nfb j by (metis add_leD1 le_trans less_le_trans linorder_not_le order_less_imp_le)
  have ts: "tail_slots b full (Suc j) = ?T @ [e]" by (simp add: tail_slots_Suc eb a)
  have "?c - 1 - j < ?c" using j by simp
  with val have ve: "valid_entry e" unfolding eb a by blast
  then have id127: "ident e < 127"
    by (simp add: valid_entry_def ident_def NUM_IDS_def MAX_SOFTEEPROM_IDS_def)
  then have idx: "ident e div 8 < NUM_VECTOR_BYTES" by (simp add: cdefs)
  have nFF: "usEntryID_of e \<noteq> 0xFF" using id127 by (auto simp: ident_def)
  have test: "(vec ! (ident e div 8)) AND push_bit (ident e mod 8) 1 = 0 \<longleftrightarrow> ident e \<notin> ident ` set ?T"
  proof -
    have "ident e < 128" using id127 by simp
    from B2 [rule_format, OF this] show ?thesis
      by (simp add: vec_def push_bit_of_1 and_exp_eq_0_iff_not_bit)
  qed
  have len32: "length buf < 32" using F2 by (simp add: buf_def split: if_splits)
  show ?thesis
  proof (cases "ident e \<in> ident ` set ?T")
    case True
    have r: "PageSwap_entry dev s l = Some (0, s, l\<lparr>pucUsedEntry := a - 4\<rparr>)"
      using True test idx unfolding ident_def e_def a_def vec_def
      by (simp add: PageSwap_entry_def Let_def)
    have k: "keep (tail_slots b full (Suc j)) = keep ?T"
      using True by (simp add: ts keep_snoc keep_ids)
    have i: "ident ` set (tail_slots b full (Suc j)) = ident ` set ?T"
      using True by (auto simp: ts)
    have "a - 4 + 4 * Suc j + 4 = full + ?pg" using A a by (simp add: a_def)
    then have "copy_inv b full new (Suc j) s (l\<lparr>pucUsedEntry := a - 4\<rparr>)"
      unfolding copy_inv_def k i
      using B1 B2 C D E F1 F2 G H by (intro exI [of _ nf]) simp
    with r show ?thesis by simp
  next
    case False
    define vec' where "vec' = vec[ident e div 8 := vec ! (ident e div 8) OR push_bit (ident e mod 8) 1]"
    define l2 where "l2 = l\<lparr>pucUsedEntry := a - 4, ulDataBuffer := buf @ [e],
        ucIDSwapped := vec', ulByteCount := ulByteCount l - 4\<rparr>"
    have C0: "C0 = 24 \<or> C0 = 128" by (simp add: C0_def)
    have F2': "4 * length buf < C0" using F2 by (simp add: C0_def buf_def)
    then have room: "4 * (length buf + 1) \<le> C0" using C0 by auto
    define r where "r = C0 - 4 * (length buf + 1)"
    have r4: "C0 - 4 * length buf = r + 4" using room by (simp add: r_def)
    have "ulByteCount l = word_of_nat (C0 - 4 * length buf)" using F1 by (simp add: C0_def buf_def)
    then have "ulByteCount l = word_of_nat r + 4" unfolding r4 by simp
    then have bc: "ulByteCount l - 4 = word_of_nat r" by simp
    have "r < 2 ^ 32" using C0 by (auto simp: r_def)
    then have "unat (word_of_nat r :: 32 word) = r"
      by (simp add: unat_of_nat)
    then have "(word_of_nat r :: 32 word) = 0 \<longleftrightarrow> r = 0"
      by (metis unat_eq_0)
    then have z: "ulByteCount l - 4 = 0 \<longleftrightarrow> C0 = 4 * (length buf + 1)"
      unfolding bc using room by (auto simp: r_def)
    have k: "keep (tail_slots b full (Suc j)) = keep ?T @ [e]"
      using False by (simp add: ts keep_snoc keep_ids)
    have lv: "length vec = 16" using B1 by (simp add: vec_def cdefs)
    have B2': "\<forall>i < 128. bit (vec' ! (i div 8)) (i mod 8) \<longleftrightarrow> i \<in> ident ` set (tail_slots b full (Suc j))"
    proof (intro allI impI)
      fix i :: nat assume i: "i < 128"
      have "ident e < 128" using id127 by simp
      from vec_set [OF lv this i] B2 [rule_format, OF i]
      show "bit (vec' ! (i div 8)) (i mod 8) \<longleftrightarrow> i \<in> ident ` set (tail_slots b full (Suc j))"
        by (auto simp: vec'_def ts vec_def)
    qed
    have A': "a - 4 + 4 * Suc j + 4 = full + ?pg" using A a by (simp add: a_def)
    obtain rcw sw where
      w: "PageDataWrite dev s (buf @ [e]) (pucNewEntry l) (length (buf @ [e]) * 4) = (rcw, sw)"
      by (cases "PageDataWrite dev s (buf @ [e]) (pucNewEntry l) (length (buf @ [e]) * 4)")
    have pre: "PageSwap_entry dev s l =
        (if ulByteCount l - 4 = 0 then
           (if rcw \<noteq> 0 then Some (ERR_SWAP OR ERR_PG_WRITE, sw, l2)
            else Some (0, sw, l2\<lparr>pucNewEntry := pucNewEntry l + length (buf @ [e]) * 4,
                                  ulByteCount := 32 * 4, ulDataBuffer := []\<rparr>))
         else Some (0, s, l2))"
      using False test idx nFF len32 w
      unfolding ident_def e_def a_def vec_def buf_def l2_def vec'_def
      by (simp add: PageSwap_entry_def Let_def)
    show ?thesis
    proof (cases "C0 = 4 * (length buf + 1)")
      case False
      with z pre have r: "PageSwap_entry dev s l = Some (0, s, l2)" by simp
      have "4 * (length buf + 1) < C0" using room False by simp
      then have "copy_inv b full new (Suc j) s l2"
        unfolding copy_inv_def k
        using A' B1 B2' C D E G H bc lv
        by (intro exI [of _ nf]) (simp add: l2_def vec'_def C0_def buf_def cdefs r_def)
      with r show ?thesis by simp
    next
      case True
      let ?ds = "buf @ [e]"
      let ?a = "new + 8 + 4 * nf"
      have n4: "(length ?ds * 4) div 4 = length ?ds" by simp
      have fit: "nf + length ?ds \<le> ?c" using nfb j by simp
      have ers: "flash s (?a + 4 * i) = ERASED_WORD" if "i < length ?ds" for i
      proof -
        have "\<forall>k < nf. ?a + 4 * i \<noteq> new + 8 + 4 * k" by auto
        with E have "flash s (?a + 4 * i) = flash b (?a + 4 * i)" by blast
        moreover have "new \<le> ?a + 4 * i \<and> ?a + 4 * i < new + ?pg"
          using that fit pg by simp
        ultimately show ?thesis using er by simp
      qed
      show ?thesis
      proof (cases "rcw = 0")
        case False
        with z True pre have "PageSwap_entry dev s l = Some (ERR_SWAP OR ERR_PG_WRITE, sw, l2)"
          by simp
        moreover have "ERR_SWAP OR ERR_PG_WRITE \<noteq> (0 :: int)" by (simp add: cdefs)
        ultimately show ?thesis by simp
      next
        case rc0: True
        define m' where "m' = program_words (flash s) ?a ?ds"
        have "\<forall>i < (length ?ds * 4) div 4. flash s (pucNewEntry l + 4 * i) = ERASED_WORD"
          unfolding n4 D using ers by blast
        from PageDataWrite_ok [OF dev w [unfolded rc0] this]
        have sw: "sw = s\<lparr>flash := m', steps := steps s @ [m']\<rparr>"
          unfolding n4 D m'_def by simp
        define l3 where "l3 = l2\<lparr>pucNewEntry := pucNewEntry l + length ?ds * 4,
                                  ulByteCount := 32 * 4, ulDataBuffer := []\<rparr>"
        from z True pre rc0 have r: "PageSwap_entry dev s l = Some (0, sw, l3)"
          by (simp add: l3_def)
        have old: "m' (new + 8 + 4 * i) = flash s (new + 8 + 4 * i)" if "i < nf" for i
          unfolding m'_def using that by (intro program_words_other) simp
        have new: "m' (?a + 4 * i) = ?ds ! i" if "i < length ?ds" for i
          unfolding m'_def using that ers [OF that] by (simp only: program_words_at erased_and)
        have other: "m' x = flash b x" if "\<forall>i < nf + length ?ds. x \<noteq> new + 8 + 4 * i" for x
        proof -
          have "x \<noteq> ?a + 4 * i" if "i < length ?ds" for i
            using \<open>\<forall>i < nf + length ?ds. x \<noteq> new + 8 + 4 * i\<close> [rule_format, of "nf + i"] that
            by simp
          then have "m' x = flash s x" unfolding m'_def by (intro program_words_other) blast
          moreover have "\<forall>i < nf. x \<noteq> new + 8 + 4 * i" using that by simp
          ultimately show ?thesis using E by simp
        qed
        have outside: "m' x = flash b x" if "\<not> (new + 8 \<le> x \<and> x < new + ?pg)" for x
          by (rule other) (use that fit pg in auto)
        have K: "keep (tail_slots b full (Suc j)) =
            map (\<lambda>i. m' (new + 8 + 4 * i)) [0..<nf + length ?ds] @ []"
        proof -
          have "map (\<lambda>i. m' (new + 8 + 4 * i)) [0..<nf] = map (\<lambda>i. flash s (new + 8 + 4 * i)) [0..<nf]"
            using old by simp
          moreover have "map (\<lambda>i. m' (new + 8 + 4 * (nf + i))) [0..<length ?ds] = ?ds"
          proof (rule map_upt_nth, intro allI impI)
            fix i assume "i < length ?ds"
            from new [OF this] show "m' (new + 8 + 4 * (nf + i)) = ?ds ! i"
              by (simp only: distrib_left add.assoc)
          qed
          ultimately show ?thesis
            unfolding k C map_upt_add buf_def [symmetric] by simp
        qed
        have S: "steps_from b sw (\<lambda>m. \<forall>x. \<not> (new + 8 \<le> x \<and> x < new + ?pg) \<longrightarrow> m x = flash b x)"
        proof (rule steps_from_trans [OF H])
          show "steps_from s sw (\<lambda>m. \<forall>x. \<not> (new + 8 \<le> x \<and> x < new + ?pg) \<longrightarrow> m x = flash b x)"
            by (rule steps_from_step [of _ _ m']) (use outside in \<open>simp_all add: sw\<close>)
        qed
        have G': "same_globals b sw" using G by (simp add: sw same_globals_def)
        have "copy_inv b full new (Suc j) sw l3"
          unfolding copy_inv_def
        proof (intro exI [of _ "nf + length ?ds"] conjI)
          show "pucUsedEntry l3 + 4 * Suc j + 4 = full + ?pg"
            using A' by (simp add: l3_def l2_def)
          show "length (ucIDSwapped l3) = NUM_VECTOR_BYTES"
            using B1 by (simp add: l3_def l2_def vec'_def vec_def)
          show "\<forall>i<128. bit (ucIDSwapped l3 ! (i div 8)) (i mod 8) =
                  (i \<in> ident ` set (tail_slots b full (Suc j)))"
            using B2' by (simp add: l3_def l2_def)
          show "keep (tail_slots b full (Suc j)) =
              map (\<lambda>i. flash sw (new + 8 + 4 * i)) [0..<nf + length ?ds] @ ulDataBuffer l3"
            using K by (simp add: sw l3_def)
          show "pucNewEntry l3 = new + 8 + 4 * (nf + length ?ds)"
            using D by (simp add: l3_def)
          show "\<forall>x. (\<forall>i<nf + length ?ds. x \<noteq> new + 8 + 4 * i) \<longrightarrow> flash sw x = flash b x"
            using other by (simp add: sw)
          show "ulByteCount l3 =
              word_of_nat ((if nf + length ?ds = 0 then 24 else 128) - 4 * length (ulDataBuffer l3))"
            by (simp add: l3_def)
          show "4 * length (ulDataBuffer l3) < (if nf + length ?ds = 0 then 24 else 128)"
            by (simp add: l3_def)
          show "same_globals b sw" by (rule G')
          show "steps_from b sw (\<lambda>m. \<forall>x. \<not> (new + 8 \<le> x \<and> x < new + ?pg) \<longrightarrow> m x = flash b x)"
            by (rule S)
        qed
        with r show ?thesis by simp
      qed
    qed
  qed
qed

lemma same_globals_cfg:
  assumes "same_globals s s'"
  shows "cap s' = cap s" "cfg_ok s' = cfg_ok s" "pages s' = pages s" "usSize s' = usSize s"
    "next_page s' = next_page s" "g_ulEEPROMPgSize s' = g_ulEEPROMPgSize s"
    "g_pucActivePage s' = g_pucActivePage s" "g_pucNextAvailEntry s' = g_pucNextAvailEntry s"
    "used s' = used s" "g_bEEPROMInitialized s' = g_bEEPROMInitialized s"
  using assms
  by (simp_all add: same_globals_def cap_def cfg_ok_def pages_def usSize_def next_page_def
      fun_eq_iff used_def)

lemma PageSwap_copy_ok:
  assumes ctx: "swap_ctx dev b full new"
  shows "copy_inv b full new j s l \<Longrightarrow> j + n \<le> cap b \<Longrightarrow>
     \<exists>rc s' l'. PageSwap_copy dev n s l = Some (rc, s', l') \<and>
        (rc = 0 \<longrightarrow> copy_inv b full new (j + n) s' l')"
proof (induction n arbitrary: j s l)
  case 0
  then show ?case by simp
next
  case (Suc n)
  from Suc.prems have j: "j < cap b" by simp
  from PageSwap_entry_step [OF ctx Suc.prems(1) j] obtain rc s1 l1 where
    e: "PageSwap_entry dev s l = Some (rc, s1, l1)"
    and i: "rc = 0 \<longrightarrow> copy_inv b full new (Suc j) s1 l1" by blast
  show ?case
  proof (cases "rc = 0")
    case False
    with e show ?thesis by simp
  next
    case True
    with i have "copy_inv b full new (Suc j) s1 l1" by simp
    from Suc.IH [OF this] Suc.prems(2) obtain rc' s' l' where
      "PageSwap_copy dev n s1 l1 = Some (rc', s', l')"
      "rc' = 0 \<longrightarrow> copy_inv b full new (Suc j + n) s' l'" by auto
    with e True show ?thesis by simp
  qed
qed

lemma and_7F:
  assumes "n mod 128 = 0"
  shows "(word_of_nat (n + 8) :: 32 word) AND 0x7F = 8"
proof -
  have "(0x7F :: 32 word) = mask 7" by (simp add: mask_eq_exp_minus_1)
  then have "(word_of_nat (n + 8) :: 32 word) AND 0x7F = take_bit 7 (word_of_nat (n + 8))"
    by (simp only: take_bit_eq_mask)
  also have "\<dots> = word_of_nat (take_bit 7 (n + 8))"
    by (simp only: take_bit_of_nat)
  also have "take_bit 7 (n + 8) = (n + 8) mod 128" by (simp add: take_bit_eq_mod)
  also have "(n + 8) mod 128 = 8" using assms by (simp add: mod_add_left_eq [symmetric])
  finally show ?thesis by simp
qed

lemma copy_inv_init:
  assumes "new mod 128 = 0" "4 \<le> g_ulEEPROMPgSize b"
  shows "copy_inv b full new 0 b
     \<lparr> pucUsedEntry = full + g_ulEEPROMPgSize b - 4,
       ucIDSwapped = replicate NUM_VECTOR_BYTES 0,
       ulDataBuffer = [],
       ulByteCount = 32 - (word_of_nat (new + 8) AND 0x7F),
       pucNewEntry = new + 8 \<rparr>"
  unfolding copy_inv_def and_7F [OF assms(1)]
  using assms(2) by (intro exI [of _ 0]) (simp add: tail_slots_def cdefs)

lemma tail_slots_all:
  "tail_slots b full (cap b) = rev (map (\<lambda>i. flash b (full + 8 + 4 * i)) [0..<cap b])"
  by (rule nth_equalityI) (simp_all add: tail_slots_def rev_nth)

lemma program_one:
  "m a = ERASED_WORD \<Longrightarrow> program_words m a (take (4 div 4) [d]) = m(a := d)"
  by simp

lemma PageDataWrite_one:
  assumes "dev_ok dev" "PageDataWrite dev s [d] a 4 = (0, s')" "flash s a = ERASED_WORD"
  shows "s' = s\<lparr>flash := (flash s)(a := d), steps := steps s @ [(flash s)(a := d)]\<rparr>"
proof -
  have "\<forall>i < 4 div (4 :: nat). flash s (a + 4 * i) = ERASED_WORD" using assms(3) by simp
  from PageDataWrite_ok [OF assms(1,2) this] show ?thesis
    by (simp only: program_one [of "flash s" a d, OF assms(3)])
qed

lemma buffer_write:
  assumes dev: "dev_ok dev"
    and w: "PageDataWrite dev s ds (new + 8 + 4 * nf) (length ds * 4) = (0, sw)"
    and E: "\<forall>x. (\<forall>i < nf. x \<noteq> new + 8 + 4 * i) \<longrightarrow> flash s x = flash b x"
    and er: "\<forall>x. new \<le> x \<and> x < new + pg \<longrightarrow> flash b x = ERASED_WORD"
    and fit: "8 + 4 * (nf + length ds) \<le> pg"
  shows "map (\<lambda>i. flash sw (new + 8 + 4 * i)) [0..<nf + length ds] =
           map (\<lambda>i. flash s (new + 8 + 4 * i)) [0..<nf] @ ds"
    and "\<forall>x. (\<forall>i < nf + length ds. x \<noteq> new + 8 + 4 * i) \<longrightarrow> flash sw x = flash b x"
    and "same_globals s sw"
    and "steps_from s sw (\<lambda>m. \<forall>x. \<not> (new + 8 \<le> x \<and> x < new + pg) \<longrightarrow> m x = flash b x)"
proof -
  let ?a = "new + 8 + 4 * nf"
  have n4: "(length ds * 4) div 4 = length ds" by simp
  have ers: "flash s (?a + 4 * i) = ERASED_WORD" if "i < length ds" for i
  proof -
    have "\<forall>k < nf. ?a + 4 * i \<noteq> new + 8 + 4 * k" by auto
    with E have "flash s (?a + 4 * i) = flash b (?a + 4 * i)" by blast
    moreover have "new \<le> ?a + 4 * i \<and> ?a + 4 * i < new + pg"
      using that fit by simp
    ultimately show ?thesis using er by simp
  qed
  define m' where "m' = program_words (flash s) ?a ds"
  have "\<forall>i < (length ds * 4) div 4. flash s (?a + 4 * i) = ERASED_WORD"
    unfolding n4 using ers by blast
  from PageDataWrite_ok [OF dev w this]
  have sw: "sw = s\<lparr>flash := m', steps := steps s @ [m']\<rparr>"
    unfolding n4 m'_def by simp
  have old: "m' (new + 8 + 4 * i) = flash s (new + 8 + 4 * i)" if "i < nf" for i
    unfolding m'_def using that by (intro program_words_other) simp
  have new: "m' (?a + 4 * i) = ds ! i" if "i < length ds" for i
    unfolding m'_def using that ers [OF that] by (simp only: program_words_at erased_and)
  have other: "m' x = flash b x" if "\<forall>i < nf + length ds. x \<noteq> new + 8 + 4 * i" for x
  proof -
    have "x \<noteq> ?a + 4 * i" if "i < length ds" for i
      using \<open>\<forall>i < nf + length ds. x \<noteq> new + 8 + 4 * i\<close> [rule_format, of "nf + i"] that
      by simp
    then have "m' x = flash s x" unfolding m'_def by (intro program_words_other) blast
    moreover have "\<forall>i < nf. x \<noteq> new + 8 + 4 * i" using that by simp
    ultimately show ?thesis using E by simp
  qed
  have outside: "m' x = flash b x" if "\<not> (new + 8 \<le> x \<and> x < new + pg)" for x
    by (rule other) (use that fit in auto)
  have "map (\<lambda>i. m' (new + 8 + 4 * i)) [0..<nf] = map (\<lambda>i. flash s (new + 8 + 4 * i)) [0..<nf]"
    using old by simp
  moreover have "map (\<lambda>i. m' (new + 8 + 4 * (nf + i))) [0..<length ds] = ds"
  proof (rule map_upt_nth, intro allI impI)
    fix i assume "i < length ds"
    from new [OF this] show "m' (new + 8 + 4 * (nf + i)) = ds ! i"
      by (simp only: distrib_left add.assoc)
  qed
  ultimately show "map (\<lambda>i. flash sw (new + 8 + 4 * i)) [0..<nf + length ds] =
           map (\<lambda>i. flash s (new + 8 + 4 * i)) [0..<nf] @ ds"
    unfolding map_upt_add by (simp add: sw)
  show "\<forall>x. (\<forall>i < nf + length ds. x \<noteq> new + 8 + 4 * i) \<longrightarrow> flash sw x = flash b x"
    using other by (simp add: sw)
  show "same_globals s sw" by (simp add: sw same_globals_def)
  show "steps_from s sw (\<lambda>m. \<forall>x. \<not> (new + 8 \<le> x \<and> x < new + pg) \<longrightarrow> m x = flash b x)"
    by (rule steps_from_step [of _ _ m']) (use outside in \<open>simp_all add: sw\<close>)
qed

lemma PageSwap_flush_ok:
  assumes ctx: "swap_ctx dev b full new" and inv: "copy_inv b full new (cap b) s l"
    and r: "PageSwap_flush dev s l = (0, s', l')"
  shows "copied b full new s' (pucNewEntry l')"
proof -
  let ?pg = "g_ulEEPROMPgSize b" and ?c = "cap b"
  let ?T = "tail_slots b full ?c"
  from ctx have dev: "dev_ok dev" and cfg: "cfg_ok b"
    and er: "\<forall>x. new \<le> x \<and> x < new + ?pg \<longrightarrow> flash b x = ERASED_WORD"
    by (simp_all add: swap_ctx_def)
  have pg: "?pg = 8 + 4 * ?c" by (rule cfg_pg(1) [OF cfg])
  from inv obtain nf where
    C: "keep ?T = map (\<lambda>i. flash s (new + 8 + 4 * i)) [0..<nf] @ ulDataBuffer l"
    and D: "pucNewEntry l = new + 8 + 4 * nf"
    and E: "\<forall>x. (\<forall>i < nf. x \<noteq> new + 8 + 4 * i) \<longrightarrow> flash s x = flash b x"
    and G: "same_globals b s"
    and H: "steps_from b s (\<lambda>m. \<forall>x. \<not> (new + 8 \<le> x \<and> x < new + ?pg) \<longrightarrow> m x = flash b x)"
    unfolding copy_inv_def by blast
  define buf where "buf = ulDataBuffer l"
  have "length (keep ?T) \<le> ?c" using keep_length [of ?T] by simp
  then have nfb: "nf + length buf \<le> ?c" using C by (simp add: buf_def)
  show ?thesis
  proof (cases "buf = []")
    case True
    with r have "s' = s" "l' = l" by (simp_all add: PageSwap_flush_def buf_def)
    then show ?thesis
      unfolding copied_def using C D E G H nfb True
      by (intro exI [of _ nf]) (simp add: buf_def)
  next
    case False
    obtain rcw sw where
      w: "PageDataWrite dev s buf (new + 8 + 4 * nf) (length buf * 4) = (rcw, sw)"
      by (cases "PageDataWrite dev s buf (new + 8 + 4 * nf) (length buf * 4)")
    have z: "ERR_SWAP OR ERR_PG_WRITE \<noteq> (0 :: int)" by (simp add: cdefs)
    from r False w D z have rcw: "rcw = 0" and s': "s' = sw"
      and l': "l' = l\<lparr>pucNewEntry := new + 8 + 4 * nf + length buf * 4\<rparr>"
      by (auto simp: PageSwap_flush_def buf_def split: if_splits)
    have fit: "8 + 4 * (nf + length buf) \<le> ?pg" using nfb pg by simp
    note bw = buffer_write [OF dev w [unfolded rcw] E er fit]
    show ?thesis
      unfolding copied_def
    proof (intro exI [of _ "nf + length buf"] conjI)
      show "keep ?T = map (\<lambda>i. flash s' (new + 8 + 4 * i)) [0..<nf + length buf]"
        unfolding C s' bw(1) by (simp add: buf_def)
      show "pucNewEntry l' = new + 8 + 4 * (nf + length buf)" by (simp add: l')
      show "nf + length buf \<le> ?c" by (rule nfb)
      show "\<forall>x. (\<forall>i<nf + length buf. x \<noteq> new + 8 + 4 * i) \<longrightarrow> flash s' x = flash b x"
        unfolding s' by (rule bw(2))
      show "same_globals b s'"
        unfolding s' by (rule same_globals_trans [OF G bw(3)])
      show "steps_from b s' (\<lambda>m. \<forall>x. \<not> (new + 8 \<le> x \<and> x < new + ?pg) \<longrightarrow> m x = flash b x)"
        unfolding s' by (rule steps_from_trans [OF H bw(4)])
    qed
  qed
qed

lemma PageSwap_mark_ok:
  assumes dev: "dev_ok dev" and r: "PageSwap_mark dev s full new pnew = (0, s')"
    and en: "flash s new = ERASED_WORD" and ef: "flash s (full + 4) = ERASED_WORD"
    and ne: "new \<noteq> full + 4"
  shows "s' = s\<lparr>flash := (flash s)(new := flash s full + 1, full + 4 := 0),
                 steps := steps s @ [(flash s)(new := flash s full + 1),
                                     (flash s)(new := flash s full + 1, full + 4 := 0)],
                 g_pucActivePage := new, g_pucNextAvailEntry := pnew\<rparr>"
    and "pnew < new + g_ulEEPROMPgSize s"
proof -
  obtain rc1 s1 where w1: "PageDataWrite dev s [flash s full + 1] new 4 = (rc1, s1)"
    by (cases "PageDataWrite dev s [flash s full + 1] new 4")
  have z: "ERR_SWAP OR ERR_PG_WRITE \<noteq> (0 :: int)" "ERR_SWAP OR ERR_AVAIL_ENTRY \<noteq> (0 :: int)"
    by (simp_all add: cdefs)
  from r w1 z have rc1: "rc1 = 0"
    by (auto simp: PageSwap_mark_def split: if_splits)
  note s1 = PageDataWrite_one [OF dev w1 [unfolded rc1] en]
  obtain rc2 s2 where w2: "PageDataWrite dev s1 [NOT ERASED_WORD] (full + 4) 4 = (rc2, s2)"
    by (cases "PageDataWrite dev s1 [NOT ERASED_WORD] (full + 4) 4")
  from r w1 rc1 w2 z have rc2: "rc2 = 0"
    by (auto simp: PageSwap_mark_def split: if_splits)
  have "flash s1 (full + 4) = ERASED_WORD" using ef ne by (simp add: s1)
  note s2 = PageDataWrite_one [OF dev w2 [unfolded rc2] this]
  have n0: "NOT ERASED_WORD = 0" by (simp add: ERASED_WORD_def)
  from r w1 rc1 w2 rc2 z
  have s': "s' = s2\<lparr>g_pucActivePage := new, g_pucNextAvailEntry := pnew\<rparr>"
    and lt: "pnew < new + g_ulEEPROMPgSize s2"
    by (auto simp: PageSwap_mark_def Let_def split: if_splits)
  show "s' = s\<lparr>flash := (flash s)(new := flash s full + 1, full + 4 := 0),
                 steps := steps s @ [(flash s)(new := flash s full + 1),
                                     (flash s)(new := flash s full + 1, full + 4 := 0)],
                 g_pucActivePage := new, g_pucNextAvailEntry := pnew\<rparr>"
    by (simp add: s' s2 s1 n0)
  show "pnew < new + g_ulEEPROMPgSize s" using lt by (simp add: s2 s1)
qed

lemma steps_from_step2:
  "steps s' = steps s @ [m1, m2] \<Longrightarrow> Q m1 \<Longrightarrow> Q m2 \<Longrightarrow> steps_from s s' Q"
  by (simp add: steps_from_def)

lemma used_eq:
  "g_pucNextAvailEntry s = g_pucActivePage s + 8 + 4 * n \<Longrightarrow> used s = n"
  by (simp add: used_def)

lemma PageSwap_ok:
  assumes dev: "dev_ok dev" and ok: "state_ok s" and fl: "used s = cap s"
    and r: "PageSwap dev s (g_pucActivePage s) = Some (0, s')"
  shows "state_ok s'" and "entries s' = keep (rev (entries s))" and "used s' < cap s'"
    and "steps_from s s' (in_swap s)" and "swapped s (flash s')"
    and "g_pucActivePage s' = next_page s (g_pucActivePage s)"
    and "pages s' = pages s" and "g_ulEEPROMPgSize s' = g_ulEEPROMPgSize s"
proof -
  let ?full = "g_pucActivePage s" and ?new = "next_page s (g_pucActivePage s)"
  let ?pg = "g_ulEEPROMPgSize s" and ?c = "cap s"
  let ?gen = "flash s ?full"
  from ok have cfg: "cfg_ok s" and ini: "g_bEEPROMInitialized s" and fp: "?full \<in> set (pages s)"
    and f4: "flash s (?full + 4) = ERASED_WORD"
    and val: "\<forall>e \<in> set (entries s). valid_entry e"
    by (simp_all add: state_ok_def)
  note pg = cfg_pg(1) [OF cfg]
  have pg0: "0 < ?pg" and pg1024: "1024 \<le> ?pg" using cfg_pg(5) [OF cfg] by simp_all
  note np = next_page_in_pages [OF cfg fp]
  have dis: "?full + ?pg \<le> ?new \<or> ?new + ?pg \<le> ?full"
    by (rule pages_disjoint [OF pg0 fp np(1) np(2) [symmetric]])
  note al = pages_aligned [OF cfg np(1)]
  have z: "ERR_SWAP OR ERR_PG_ERASE \<noteq> (0 :: int)" by (simp add: cdefs)
  obtain rc1 b where e: "PageErase dev s ?new = (rc1, b)" by (cases "PageErase dev s ?new")
  with r z have rc1: "rc1 = 0"
    by (auto simp: PageSwap_def Let_def split: if_splits)
  note pe = PageErase_ok [OF dev cfg al(1) e [unfolded rc1]]
  note sg = same_globals_cfg [OF pe(1)]
  have cfgb: "cfg_ok b" using cfg sg(2) by simp
  have fb: "flash b x = flash s x" if "\<not> (?new \<le> x \<and> x < ?new + ?pg)" for x
    using that by (auto simp: pe(2))
  have eb: "flash b x = ERASED_WORD" if "?new \<le> x \<and> x < ?new + ?pg" for x
    using that by (simp add: pe(2))
  have ent: "entries s = map (\<lambda>i. flash s (?full + 8 + 4 * i)) [0..<?c]"
    by (simp add: entries_def fl)
  have slot: "flash b (?full + 8 + 4 * i) = flash s (?full + 8 + 4 * i)" if "i < ?c" for i
    by (rule fb) (use dis pg that in auto)
  have ctx: "swap_ctx dev b ?full ?new"
    unfolding swap_ctx_def sg
  proof (intro conjI allI impI)
    show "dev_ok dev" by (rule dev)
    show "cfg_ok s" by (rule cfg)
    show "?full + ?pg \<le> ?new \<or> ?new + ?pg \<le> ?full" by (rule dis)
    show "valid_entry (flash b (?full + 8 + 4 * i))" if "i < ?c" for i
      using val that by (simp add: ent slot)
    show "flash b x = ERASED_WORD" if "?new \<le> x \<and> x < ?new + ?pg" for x
      by (rule eb [OF that])
  qed
  define l0 where "l0 = \<lparr> pucUsedEntry = ?full + g_ulEEPROMPgSize b - 4,
       ucIDSwapped = replicate NUM_VECTOR_BYTES 0,
       ulDataBuffer = [],
       ulByteCount = 32 - (word_of_nat (?new + 8) AND 0x7F),
       pucNewEntry = ?new + 8 \<rparr>"
  have "1024 dvd ?new" using al(1) by (simp add: FLASH_ERASE_SIZE_def dvd_eq_mod_eq_0)
  then obtain q where "?new = 128 * (8 * q)" by (auto simp: dvd_def)
  then have n128: "?new mod 128 = 0" by simp
  have "4 \<le> g_ulEEPROMPgSize b" using pg1024 sg by simp
  from copy_inv_init [OF n128 this]
  have inv0: "copy_inv b ?full ?new 0 b l0" by (simp add: l0_def)
  from PageSwap_copy_ok [OF ctx inv0, of "cap b"] obtain rc2 s2 l2 where
    cp: "PageSwap_copy dev (usSize b) b l0 = Some (rc2, s2, l2)"
    and i2: "rc2 = 0 \<longrightarrow> copy_inv b ?full ?new (cap b) s2 l2"
    by (auto simp: cfg_pg(3) [OF cfgb])
  obtain rc3 s3 l3 where fs: "PageSwap_flush dev s2 l2 = (rc3, s3, l3)"
    by (cases "PageSwap_flush dev s2 l2")
  from r e rc1 cp fs
  have "rc2 = 0 \<and> rc3 = 0 \<and> PageSwap_mark dev s3 ?full ?new (pucNewEntry l3) = (0, s')"
    by (auto simp: PageSwap_def Let_def l0_def split: if_splits)
  then have rc2: "rc2 = 0" and rc3: "rc3 = 0"
    and mk: "PageSwap_mark dev s3 ?full ?new (pucNewEntry l3) = (0, s')" by simp_all
  from i2 rc2 have "copy_inv b ?full ?new (cap b) s2 l2" by simp
  from PageSwap_flush_ok [OF ctx this fs [unfolded rc3]] obtain nf where
    K: "keep (tail_slots b ?full (cap b)) = map (\<lambda>i. flash s3 (?new + 8 + 4 * i)) [0..<nf]"
    and P: "pucNewEntry l3 = ?new + 8 + 4 * nf" and nfc: "nf \<le> ?c"
    and E3: "\<forall>x. (\<forall>i < nf. x \<noteq> ?new + 8 + 4 * i) \<longrightarrow> flash s3 x = flash b x"
    and G3: "same_globals b s3"
    and H3: "steps_from b s3 (\<lambda>m. \<forall>x. \<not> (?new + 8 \<le> x \<and> x < ?new + ?pg) \<longrightarrow> m x = flash b x)"
    unfolding copied_def sg by blast
  note sg3 = same_globals_cfg [OF same_globals_trans [OF pe(1) G3]]
  have f3: "flash s3 x = flash b x" if "\<not> (?new + 8 \<le> x \<and> x < ?new + ?pg)" for x
  proof -
    have "\<forall>i < nf. x \<noteq> ?new + 8 + 4 * i" using that nfc pg by auto
    with E3 show ?thesis by simp
  qed
  have f3s: "flash s3 x = flash s x" if "\<not> (?new \<le> x \<and> x < ?new + ?pg)" for x
    using f3 [of x] fb [of x] that by simp
  have o1: "\<not> (?new \<le> ?full \<and> ?full < ?new + ?pg)" using dis pg0 by auto
  have o2: "\<not> (?new \<le> ?full + 4 \<and> ?full + 4 < ?new + ?pg)" using dis pg1024 by auto
  have i1: "?new \<le> ?new \<and> ?new < ?new + ?pg" using pg0 by simp
  have i2: "?new \<le> ?new + 4 \<and> ?new + 4 < ?new + ?pg" using pg1024 by simp
  have "flash s3 ?new = flash b ?new" by (rule f3) simp
  then have en: "flash s3 ?new = ERASED_WORD" using eb [OF i1] by simp
  have "flash s3 (?new + 4) = flash b (?new + 4)" by (rule f3) simp
  then have en4: "flash s3 (?new + 4) = ERASED_WORD" using eb [OF i2] by simp
  have ff: "flash s3 ?full = ?gen" by (rule f3s [OF o1])
  have ef: "flash s3 (?full + 4) = ERASED_WORD" using f3s [OF o2] f4 by simp
  have ne: "?new \<noteq> ?full + 4" using dis pg1024 by auto
  define m1 where "m1 = (flash s3)(?new := ?gen + 1)"
  define m2 where "m2 = m1(?full + 4 := 0)"
  note mko = PageSwap_mark_ok [OF dev mk en ef ne]
  have s': "s' = s3\<lparr>flash := m2, steps := steps s3 @ [m1, m2],
                    g_pucActivePage := ?new, g_pucNextAvailEntry := ?new + 8 + 4 * nf\<rparr>"
    using mko(1) by (simp add: m1_def m2_def ff P)
  have lt: "nf < ?c" using mko(2) P pg sg3(6) by simp
  have m2e: "m2 (?new + 8 + 4 * i) = flash s3 (?new + 8 + 4 * i)" if "i < ?c" for i
    using dis pg that by (auto simp: m2_def m1_def)
  have act: "g_pucActivePage s' = ?new" and nav: "g_pucNextAvailEntry s' = ?new + 8 + 4 * nf"
    and fs': "flash s' = m2"
    by (simp_all add: s')
  have us: "used s' = nf" by (rule used_eq) (simp add: act nav)
  have sgs: "same_globals s (s'\<lparr>g_pucActivePage := ?full, g_pucNextAvailEntry := g_pucNextAvailEntry s\<rparr>)"
    using same_globals_trans [OF pe(1) G3] by (simp add: s' same_globals_def)
  have cs: "cap s' = ?c" "cfg_ok s'" "pages s' = pages s" "g_ulEEPROMPgSize s' = ?pg"
      "g_bEEPROMInitialized s'"
    using same_globals_cfg(1,2,3,6,10) [OF sgs] cfg ini
    by (simp_all add: cap_def cfg_ok_def pages_def)
  show "pages s' = pages s" "g_ulEEPROMPgSize s' = ?pg" by (rule cs)+
  show "g_pucActivePage s' = ?new" by (rule act)
  show "used s' < cap s'" using us lt cs by simp
  have "entries s' = map (\<lambda>i. flash s3 (?new + 8 + 4 * i)) [0..<nf]"
    using lt by (auto simp: entries_def us act fs' m2e)
  also have "\<dots> = keep (tail_slots b ?full (cap b))" by (simp only: K)
  also have "tail_slots b ?full (cap b) = rev (entries s)"
  proof -
    have "tail_slots b ?full (cap b) = rev (map (\<lambda>i. flash b (?full + 8 + 4 * i)) [0..<cap b])"
      by (rule tail_slots_all)
    also have "map (\<lambda>i. flash b (?full + 8 + 4 * i)) [0..<cap b] = entries s"
      using slot by (simp add: sg(1) ent)
    finally show ?thesis .
  qed
  finally show es: "entries s' = keep (rev (entries s))" .
  have sub: "set (entries s') \<subseteq> set (entries s)"
    unfolding es using keep_subset [of "rev (entries s)"] by simp
  have rest: "flash s' (?new + 8 + 4 * i) = ERASED_WORD" if "nf \<le> i" "i < ?c" for i
  proof -
    have "\<forall>k < nf. ?new + 8 + 4 * i \<noteq> ?new + 8 + 4 * k" using that by auto
    with E3 have "flash s3 (?new + 8 + 4 * i) = flash b (?new + 8 + 4 * i)" by blast
    also have "\<dots> = ERASED_WORD" by (rule eb) (use that pg in simp)
    finally show ?thesis using that by (simp add: fs' m2e)
  qed
  have st4: "flash s' (?new + 4) = ERASED_WORD"
    using en4 np(2) by (simp add: fs' m2_def m1_def)
  show "state_ok s'"
    unfolding state_ok_def act nav us cs(1) cs(3)
    using cs(2) cs(5) np(1) lt st4 rest sub val by (auto simp: less_imp_le)
  have frame3: "swap_frame s m" if "\<forall>x. \<not> (?new + 8 \<le> x \<and> x < ?new + ?pg) \<longrightarrow> m x = flash b x" for m
    unfolding swap_frame_def using that fb by auto
  have A: "in_swap s m" if "\<forall>x. \<not> (?new + 8 \<le> x \<and> x < ?new + ?pg) \<longrightarrow> m x = flash b x" for m
  proof -
    have "m ?new = flash b ?new" using that by simp
    then have "m ?new = ERASED_WORD" using eb [OF i1] by simp
    moreover have "m (?full + 4) = flash b (?full + 4)" using that o2 by simp
    then have "m (?full + 4) = ERASED_WORD" using fb [OF o2] f4 by simp
    ultimately show ?thesis using frame3 [OF that] by (simp add: in_swap_def)
  qed
  have A0: "in_swap s m" if "(\<forall>x. \<not> (?new \<le> x \<and> x < ?new + ?pg) \<longrightarrow> m x = flash s x) \<and>
      m ?new = ERASED_WORD \<and> m (?new + 4) = ERASED_WORD" for m
  proof -
    have "m (?full + 4) = flash s (?full + 4)" using that o2 by blast
    then have "m (?full + 4) = ERASED_WORD" using f4 by simp
    then show ?thesis using that by (simp add: in_swap_def swap_frame_def)
  qed
  have fr1: "swap_frame s m1" unfolding swap_frame_def m1_def using f3s pg0 by auto
  have fr2: "swap_frame s m2" unfolding swap_frame_def m2_def m1_def using f3s pg0 by auto
  have mk1: "swap_marked s m1" unfolding swap_marked_def m1_def using en4 by simp
  have mk2: "swap_marked s m2" unfolding swap_marked_def m2_def m1_def using en4 ne np(2) by simp
  have B: "in_swap s m1"
    unfolding in_swap_def using fr1 mk1 ef ne by (simp add: m1_def)
  have C: "in_swap s m2"
    unfolding in_swap_def using fr2 mk2 by (simp add: m2_def)
  show "swapped s (flash s')"
    unfolding swapped_def fs' using fr2 mk2 by (simp add: m2_def)
  have "steps_from s b (in_swap s)" by (rule steps_from_mono [OF pe(3)]) (rule A0)
  moreover have "steps_from b s3 (in_swap s)" by (rule steps_from_mono [OF H3]) (rule A)
  moreover have "steps_from s3 s' (in_swap s)"
    by (rule steps_from_step2 [of _ _ m1 m2]) (simp_all add: s' B C)
  ultimately show "steps_from s s' (in_swap s)"
    by (blast intro: steps_from_trans)
qed

lemma entry_addr_status:
  assumes cfg: "cfg_ok s" and a: "a \<in> set (pages s)" and p: "p \<in> set (pages s)" and i: "i < cap s"
  shows "a + 8 + 4 * i \<noteq> p" "a + 8 + 4 * i \<noteq> p + 4"
proof -
  note pg = cfg_pg(1) [OF cfg]
  have pg0: "0 < g_ulEEPROMPgSize s" using pg by simp
  have "a + 8 + 4 * i \<noteq> p \<and> a + 8 + 4 * i \<noteq> p + 4"
  proof (cases "p = a")
    case True
    then show ?thesis by simp
  next
    case False
    from pages_disjoint [OF pg0 p a False] pg i show ?thesis by auto
  qed
  then show "a + 8 + 4 * i \<noteq> p" "a + 8 + 4 * i \<noteq> p + 4" by simp_all
qed

lemma entry_write_ok:
  assumes dev: "dev_ok dev" and ok: "state_ok s" and lt: "used s < cap s"
    and k: "unat k < NUM_IDS"
    and w: "PageDataWrite dev s [make_entry k v] (g_pucNextAvailEntry s) 4 = (0, s2)"
  defines "s' \<equiv> s2\<lparr>g_pucNextAvailEntry := g_pucNextAvailEntry s2 + 4\<rparr>"
  shows "state_ok s'" and "entries s' = entries s @ [make_entry k v]"
    and "flash s' = (flash s)(g_pucNextAvailEntry s := make_entry k v)"
    and "steps s' = steps s @ [flash s']"
    and "g_pucActivePage s' = g_pucActivePage s" and "pages s' = pages s"
    and "g_ulEEPROMPgSize s' = g_ulEEPROMPgSize s"
proof -
  let ?A = "g_pucActivePage s" and ?u = "used s" and ?e = "make_entry k v"
  from ok have cfg: "cfg_ok s" and ini: "g_bEEPROMInitialized s" and ap: "?A \<in> set (pages s)"
    and na: "g_pucNextAvailEntry s = ?A + 8 + 4 * ?u"
    and f4: "flash s (?A + 4) = ERASED_WORD"
    and er: "\<forall>i. ?u \<le> i \<and> i < cap s \<longrightarrow> flash s (?A + 8 + 4 * i) = ERASED_WORD"
    and val: "\<forall>e \<in> set (entries s). valid_entry e"
    by (simp_all add: state_ok_def)
  have "flash s (g_pucNextAvailEntry s) = ERASED_WORD" unfolding na using er lt by simp
  note s2 = PageDataWrite_one [OF dev w this]
  define m where "m = (flash s)(?A + 8 + 4 * ?u := ?e)"
  have s': "s' = s\<lparr>flash := m, steps := steps s @ [m],
                   g_pucNextAvailEntry := ?A + 8 + 4 * (?u + 1)\<rparr>"
    by (simp add: s'_def s2 na m_def)
  show fs: "flash s' = (flash s)(g_pucNextAvailEntry s := ?e)" by (simp add: s' m_def na)
  show "steps s' = steps s @ [flash s']" by (simp add: s')
  show act: "g_pucActivePage s' = ?A" by (simp add: s')
  show pgs: "pages s' = pages s" by (simp add: s' pages_def)
  show "g_ulEEPROMPgSize s' = g_ulEEPROMPgSize s" by (simp add: s')
  have c: "cap s' = cap s" "cfg_ok s'" "g_bEEPROMInitialized s'"
    using cfg ini by (simp_all add: s' cap_def cfg_ok_def)
  have nav: "g_pucNextAvailEntry s' = ?A + 8 + 4 * (?u + 1)" by (simp add: s')
  have us: "used s' = ?u + 1" by (rule used_eq) (simp only: nav act)
  have fm: "flash s' = m" by (simp add: s')
  show es: "entries s' = entries s @ [?e]"
    by (simp add: entries_def us act fm m_def)
  have "valid_entry ?e" using k by (simp add: valid_entry_def)
  with val have v': "\<forall>e \<in> set (entries s'). valid_entry e" by (simp add: es)
  have st: "flash s' (?A + 4) = ERASED_WORD" using f4 by (simp add: fm m_def)
  have rest: "\<forall>i. ?u + 1 \<le> i \<and> i < cap s \<longrightarrow> flash s' (?A + 8 + 4 * i) = ERASED_WORD"
    using er by (simp add: fm m_def)
  show "state_ok s'"
    unfolding state_ok_def act nav us c(1) pgs
    using c(2,3) ap lt st rest v' by simp
qed

lemma Write_ok:
  assumes dev: "dev_ok dev" and ok: "state_ok s"
    and r: "SoftEEPROMWrite dev s k v = Some (0, s')"
  shows "state_ok s'"
    and "lookup k' (entries s') = (if k' = k then (v, True) else lookup k' (entries s))"
    and "steps_from s s' (\<lambda>m. if used s = cap s then in_swap s m else same_status s m)"
    and "used s = cap s \<and> swapped s (flash s') \<and>
           g_pucActivePage s' = next_page s (g_pucActivePage s) \<or>
         used s \<noteq> cap s \<and> same_status s (flash s') \<and> g_pucActivePage s' = g_pucActivePage s"
    and "pages s' = pages s"
proof -
  let ?A = "g_pucActivePage s" and ?pg = "g_ulEEPROMPgSize s" and ?e = "make_entry k v"
  let ?new = "next_page s ?A"
  from ok have cfg: "cfg_ok s" and ini: "g_bEEPROMInitialized s" and ap: "?A \<in> set (pages s)"
    and na: "g_pucNextAvailEntry s = ?A + 8 + 4 * used s" and u: "used s \<le> cap s"
    by (simp_all add: state_ok_def)
  note pg = cfg_pg(1) [OF cfg]
  have z: "ERR_ILLEGAL_ID \<noteq> (0 :: int)" "ERR_PG_WRITE \<noteq> (0 :: int)" by (simp_all add: cdefs)
  from r ini z have k: "unat k < NUM_IDS"
    by (auto simp: SoftEEPROMWrite_def split: if_splits)
  have full: "g_pucNextAvailEntry s \<ge> ?A + ?pg \<longleftrightarrow> used s = cap s"
    using na pg u by auto
  have "state_ok s' \<and>
      lookup k' (entries s') = (if k' = k then (v, True) else lookup k' (entries s)) \<and>
      steps_from s s' (\<lambda>m. if used s = cap s then in_swap s m else same_status s m) \<and>
      (used s = cap s \<and> swapped s (flash s') \<and> g_pucActivePage s' = ?new \<or>
         used s \<noteq> cap s \<and> same_status s (flash s') \<and> g_pucActivePage s' = ?A) \<and>
      pages s' = pages s"
  proof (cases "used s = cap s")
    case False
    with u have lt: "used s < cap s" by simp
    obtain rc s2 where w: "PageDataWrite dev s [?e] (g_pucNextAvailEntry s) 4 = (rc, s2)"
      by (cases "PageDataWrite dev s [?e] (g_pucNextAvailEntry s) 4")
    from r ini k False full w z
    have rc: "rc = 0" and s': "s' = s2\<lparr>g_pucNextAvailEntry := g_pucNextAvailEntry s2 + 4\<rparr>"
      by (auto simp: SoftEEPROMWrite_def split: if_splits)
    note ew = entry_write_ok [OF dev ok lt k w [unfolded rc], folded s']
    have ss: "same_status s (flash s')"
      unfolding same_status_def ew(3) na
    proof (intro ballI conjI)
      fix p assume "p \<in> set (pages s)"
      note ea = entry_addr_status [OF cfg ap this lt]
      show "((flash s)(?A + 8 + 4 * used s := ?e)) p = flash s p"
        by (rule fun_upd_other) (rule ea(1) [symmetric])
      show "((flash s)(?A + 8 + 4 * used s := ?e)) (p + 4) = flash s (p + 4)"
        by (rule fun_upd_other) (rule ea(2) [symmetric])
    qed
    have "steps_from s s' (\<lambda>m. if used s = cap s then in_swap s m else same_status s m)"
      by (rule steps_from_step [OF ew(4)]) (simp add: ss False)
    with ew ss False show ?thesis by simp
  next
    case True
    obtain rc1 s1 where sw0: "PageSwap dev s ?A = Some (rc1, s1)"
      using r ini k True full
      by (auto simp: SoftEEPROMWrite_def split: if_splits option.splits)
    obtain rc s2 where w: "PageDataWrite dev s1 [?e] (g_pucNextAvailEntry s1) 4 = (rc, s2)"
      by (cases "PageDataWrite dev s1 [?e] (g_pucNextAvailEntry s1) 4")
    from r ini k True full sw0 w z
    have rc1: "rc1 = 0" and rc: "rc = 0"
      and s': "s' = s2\<lparr>g_pucNextAvailEntry := g_pucNextAvailEntry s2 + 4\<rparr>"
      by (auto simp: SoftEEPROMWrite_def split: if_splits)
    note ps = PageSwap_ok [OF dev ok True sw0 [unfolded rc1]]
    note ew = entry_write_ok [OF dev ps(1) ps(3) k w [unfolded rc], folded s']
    from ps(1) have na1: "g_pucNextAvailEntry s1 = g_pucActivePage s1 + 8 + 4 * used s1"
      by (simp add: state_ok_def)
    note np = next_page_in_pages [OF cfg ap]
    have pg0: "0 < ?pg" using pg by simp
    have dis: "?A + ?pg \<le> ?new \<or> ?new + ?pg \<le> ?A"
      by (rule pages_disjoint [OF pg0 ap np(1) np(2) [symmetric]])
    have c1: "cap s1 = cap s" using ps(8) by (simp add: cap_def)
    define a where "a = g_pucNextAvailEntry s1"
    have a: "?new + 8 \<le> a" "a < ?new + ?pg" "a \<noteq> ?A + 4"
      using na1 ps(3) ps(6) c1 pg dis by (auto simp: a_def)
    have fs: "flash s' = (flash s1)(a := ?e)" by (simp add: ew(3) a_def)
    from ps(5) have swd: "swapped s (flash s')"
      unfolding swapped_def swap_frame_def swap_marked_def fs using a by auto
    then have "in_swap s (flash s')" by (simp add: swapped_def in_swap_def)
    then have "steps_from s1 s' (\<lambda>m. if used s = cap s then in_swap s m else same_status s m)"
      by (intro steps_from_step [OF ew(4)]) (simp add: True)
    moreover have "steps_from s s1 (\<lambda>m. if used s = cap s then in_swap s m else same_status s m)"
      by (rule steps_from_mono [OF ps(4)]) (simp add: True)
    ultimately have st: "steps_from s s' (\<lambda>m. if used s = cap s then in_swap s m else same_status s m)"
      by (blast intro: steps_from_trans)
    have "lookup k' (entries s') = (if k' = k then (v, True) else lookup k' (entries s))"
      by (simp add: ew(2) ps(2) lookup_keep_rev)
    with ew(1) st swd ew(5) ps(6) ew(6) ps(7) True
    show ?thesis by simp
  qed
  then show "state_ok s'"
    and "lookup k' (entries s') = (if k' = k then (v, True) else lookup k' (entries s))"
    and "steps_from s s' (\<lambda>m. if used s = cap s then in_swap s m else same_status s m)"
    and "used s = cap s \<and> swapped s (flash s') \<and>
           g_pucActivePage s' = next_page s (g_pucActivePage s) \<or>
         used s \<noteq> cap s \<and> same_status s (flash s') \<and> g_pucActivePage s' = g_pucActivePage s"
    and "pages s' = pages s"
    by simp_all
qed

lemma write_all_ok:
  assumes dev: "dev_ok dev"
  shows "state_ok s \<Longrightarrow> write_all dev s ops = Some s' \<Longrightarrow>
     state_ok s' \<and>
     lookup k (entries s') =
       (case map_of (rev ops) k of Some v \<Rightarrow> (v, True) | None \<Rightarrow> lookup k (entries s))"
proof (induction ops arbitrary: s)
  case Nil
  then show ?case by simp
next
  case (Cons op ops)
  obtain k0 v0 where op: "op = (k0, v0)" by (cases op)
  from Cons.prems(2) obtain s1 where
    w: "SoftEEPROMWrite dev s k0 v0 = Some (0, s1)" and rest: "write_all dev s1 ops = Some s'"
    by (auto simp: op split: option.splits if_splits)
  note wo = Write_ok [OF dev Cons.prems(1) w]
  from Cons.IH [OF wo(1) rest] wo(2) [of k]
  show ?case by (simp add: op map_add_def split: option.splits)
qed

lemma nor_flash_ok: "dev_ok (nor_flash sz)"
  by (simp add: dev_ok_def nor_flash_def)

lemma pages_ready: "pages ready = [0x3D000, 0x3D400, 0x3D800, 0x3DC00]"
  by (simp add: pages_def ready_def page_addrs.simps)

lemma ready_ok: "state_ok ready"
  unfolding state_ok_def pages_ready
  by (simp add: ready_def cfg_ok_def used_def cap_def entries_def cdefs)

lemma ready_one_active: "one_active ready"
  unfolding one_active_def pages_ready
  by (simp add: ready_def PageIsActive_def cdefs)

lemma page_status_apart:
  assumes cfg: "cfg_ok s" and p: "p \<in> set (pages s)" and q: "q \<in> set (pages s)" and ne: "p \<noteq> q"
  shows "\<not> (q \<le> p \<and> p < q + g_ulEEPROMPgSize s)"
    and "\<not> (q \<le> p + 4 \<and> p + 4 < q + g_ulEEPROMPgSize s)"
    and "p \<noteq> q + 4" and "p + 4 \<noteq> q + 4"
proof -
  have pg: "1024 \<le> g_ulEEPROMPgSize s" by (rule cfg_pg(5) [OF cfg])
  then have pg0: "0 < g_ulEEPROMPgSize s" by simp
  from pages_disjoint [OF pg0 p q ne] pg
  show "\<not> (q \<le> p \<and> p < q + g_ulEEPROMPgSize s)"
    and "\<not> (q \<le> p + 4 \<and> p + 4 < q + g_ulEEPROMPgSize s)"
    and "p \<noteq> q + 4" and "p + 4 \<noteq> q + 4"
    by auto
qed

lemma one_active_ok:
  assumes "state_ok s" and "one_active s"
  shows "active_ok s"
proof -
  from assms(1) have "g_pucActivePage s \<in> set (pages s)" by (simp add: state_ok_def)
  with assms(2) show ?thesis by (simp add: one_active_def active_ok_def)
qed

lemma active_ok_one:
  assumes "active_ok s" and "used s \<noteq> cap s" and "p \<in> set (pages s)"
  shows "PageIsActive (flash s) p \<longleftrightarrow> p = g_pucActivePage s"
  using assms by (auto simp: active_ok_def)

lemma in_swap_active:
  assumes ok: "state_ok s" and act: "active_ok s" and sw: "in_swap s m"
    and gen: "flash s (g_pucActivePage s) + 1 \<noteq> ERASED_WORD"
    and p: "p \<in> set (pages s)"
  shows "PageIsActive m p \<longleftrightarrow>
           p = g_pucActivePage s \<and> m (g_pucActivePage s + 4) = ERASED_WORD \<or>
           p = next_page s (g_pucActivePage s) \<and> swap_marked s m"
proof -
  let ?A = "g_pucActivePage s" and ?new = "next_page s (g_pucActivePage s)"
  from ok have cfg: "cfg_ok s" and ap: "?A \<in> set (pages s)" by (simp_all add: state_ok_def)
  note np = next_page_in_pages [OF cfg ap]
  from sw have fr: "swap_frame s m" by (simp add: in_swap_def)
  from act have "PageIsActive (flash s) ?A" by (simp add: active_ok_def)
  then have genA: "flash s ?A \<noteq> ERASED_WORD" by (simp add: PageIsActive_def)
  consider "p = ?A" | "p = ?new" | "p \<noteq> ?A" "p \<noteq> ?new" by blast
  then show ?thesis
  proof cases
    case 1
    note a = page_status_apart [OF cfg ap np(1) np(2) [symmetric]]
    have "m ?A = flash s ?A" using fr a(1) unfolding swap_frame_def by simp
    with genA 1 np(2) show ?thesis by (auto simp: PageIsActive_def)
  next
    case 2
    from sw gen show ?thesis
      unfolding 2 in_swap_def swap_marked_def PageIsActive_def using np(2) by auto
  next
    case 3
    note a = page_status_apart [OF cfg p np(1) 3(2)]
    note b = page_status_apart [OF cfg p ap 3(1)]
    have "m p = flash s p" "m (p + 4) = flash s (p + 4)"
      using fr a(1,2) b(3,4) unfolding swap_frame_def by simp_all
    then have "PageIsActive m p = PageIsActive (flash s) p" by (simp add: PageIsActive_def)
    with act p 3 show ?thesis by (auto simp: active_ok_def)
  qed
qed

lemma in_swap_count:
  assumes ok: "state_ok s" and act: "active_ok s" and sw: "in_swap s m"
    and gen: "flash s (g_pucActivePage s) + 1 \<noteq> ERASED_WORD"
  shows "active_count s m = 1 \<or> active_count s m = 2"
proof -
  let ?A = "g_pucActivePage s" and ?new = "next_page s (g_pucActivePage s)"
  from ok have cfg: "cfg_ok s" and ap: "?A \<in> set (pages s)" by (simp_all add: state_ok_def)
  note np = next_page_in_pages [OF cfg ap]
  note ia = in_swap_active [OF ok act sw gen]
  have z: "(0 :: 32 word) \<noteq> ERASED_WORD" by (simp add: ERASED_WORD_def)
  from sw consider
      "m ?new = ERASED_WORD" "m (?A + 4) = ERASED_WORD"
    | "swap_marked s m" "m (?A + 4) = ERASED_WORD"
    | "swap_marked s m" "m (?A + 4) = 0"
    unfolding in_swap_def by blast
  then show ?thesis
  proof cases
    case 1
    then have "\<not> swap_marked s m" using gen by (simp add: swap_marked_def)
    with 1 ia have "active_count s m = 1"
      by (intro active_count_1 [OF ap]) simp
    then show ?thesis ..
  next
    case 2
    with ia have "active_count s m = 2"
      by (intro active_count_2 [OF ap np(1) np(2) [symmetric]]) auto
    then show ?thesis ..
  next
    case 3
    with ia z have "active_count s m = 1"
      by (intro active_count_1 [OF np(1)]) auto
    then show ?thesis ..
  qed
qed

lemma same_status_active:
  "same_status s m \<Longrightarrow> p \<in> set (pages s) \<Longrightarrow> PageIsActive m p = PageIsActive (flash s) p"
  by (simp add: same_status_def PageIsActive_def)

lemma same_status_count:
  assumes ok: "state_ok s" and act: "active_ok s" and nf: "used s \<noteq> cap s"
    and ss: "same_status s m"
  shows "active_count s m = 1"
proof -
  from ok have ap: "g_pucActivePage s \<in> set (pages s)" by (simp add: state_ok_def)
  show ?thesis
    by (rule active_count_1 [OF ap])
       (simp add: same_status_active [OF ss] active_ok_one [OF act nf])
qed

lemma Write_one_active:
  assumes dev: "dev_ok dev" and ok: "state_ok s" and act: "active_ok s"
    and gen: "flash s (g_pucActivePage s) + 1 \<noteq> ERASED_WORD"
    and r: "SoftEEPROMWrite dev s k v = Some (0, s')"
  shows "one_active s'"
proof -
  note wo = Write_ok [OF dev ok r]
  have z: "(0 :: 32 word) \<noteq> ERASED_WORD" by (simp add: ERASED_WORD_def)
  from wo(4) show ?thesis
  proof
    assume a: "used s = cap s \<and> swapped s (flash s') \<and>
           g_pucActivePage s' = next_page s (g_pucActivePage s)"
    then have "in_swap s (flash s')" by (simp add: swapped_def in_swap_def)
    note ia = in_swap_active [OF ok act this gen]
    from a z show ?thesis
      unfolding one_active_def wo(5) using ia by (auto simp: swapped_def)
  next
    assume a: "used s \<noteq> cap s \<and> same_status s (flash s') \<and>
           g_pucActivePage s' = g_pucActivePage s"
    then have "PageIsActive (flash s') p \<longleftrightarrow> p = g_pucActivePage s" if "p \<in> set (pages s)" for p
      using same_status_active [OF _ that] active_ok_one [OF act _ that] by simp
    with a show ?thesis
      unfolding one_active_def wo(5) by simp
  qed
qed

lemma active_count_le1:
  assumes "\<And>p. p \<in> set (pages s) \<Longrightarrow> PageIsActive m p \<Longrightarrow> p = q"
  shows "active_count s m \<le> 1"
proof -
  have "distinct (filter (PageIsActive m) (pages s))" using pages_distinct by simp
  from distinct_card [OF this]
  have "active_count s m = card (set (filter (PageIsActive m) (pages s)))"
    by (simp only: active_count_def)
  also have "\<dots> \<le> card {q}" by (rule card_mono) (use assms in auto)
  finally show ?thesis by simp
qed

lemma PageIsActive_cong:
  "m p = m' p \<Longrightarrow> m (p + 4) = m' (p + 4) \<Longrightarrow> PageIsActive m p = PageIsActive m' p"
  by (simp add: PageIsActive_def)

lemma Clear_ok:
  assumes dev: "dev_ok dev" and ok: "state_ok s" and act: "active_ok s"
    and gen: "flash s (g_pucActivePage s) + 1 \<noteq> ERASED_WORD"
    and r: "SoftEEPROMClear dev s = (0, s')"
  shows "steps_from s s' (\<lambda>m. active_count s m \<le> 1)" and "state_ok s'" and "one_active s'"
    and "entries s' = []"
proof -
  let ?A = "g_pucActivePage s" and ?new = "next_page s (g_pucActivePage s)"
  let ?pg = "g_ulEEPROMPgSize s"
  from ok have cfg: "cfg_ok s" and ini: "g_bEEPROMInitialized s" and ap: "?A \<in> set (pages s)"
    and f4: "flash s (?A + 4) = ERASED_WORD"
    by (simp_all add: state_ok_def)
  note pg = cfg_pg(1) [OF cfg]
  have pg1024: "1024 \<le> ?pg" by (rule cfg_pg(5) [OF cfg])
  note np = next_page_in_pages [OF cfg ap]
  note al = pages_aligned [OF cfg np(1)]
  have z: "ERR_PG_WRITE \<noteq> (0 :: int)" "ERR_PG_ERASE \<noteq> (0 :: int)" by (simp_all add: cdefs)
  have z0: "(0 :: 32 word) \<noteq> ERASED_WORD" "NOT ERASED_WORD = 0" by (simp_all add: ERASED_WORD_def)
  obtain rc1 s1 where w1: "PageDataWrite dev s [NOT ERASED_WORD] (?A + 4) 4 = (rc1, s1)"
    by (cases "PageDataWrite dev s [NOT ERASED_WORD] (?A + 4) 4")
  from r ini w1 z have rc1: "rc1 = 0"
    by (auto simp: SoftEEPROMClear_def split: if_splits)
  define m1 where "m1 = (flash s)(?A + 4 := 0)"
  have s1: "s1 = s\<lparr>flash := m1, steps := steps s @ [m1]\<rparr>"
    using PageDataWrite_one [OF dev w1 [unfolded rc1] f4] by (simp add: m1_def z0)
  have g1: "same_globals s s1" by (simp add: s1 same_globals_def)
  note sg1 = same_globals_cfg [OF g1]
  have cfg1: "cfg_ok s1" using cfg sg1(2) by simp
  obtain rc2 s2 where e: "PageErase dev s1 ?new = (rc2, s2)" by (cases "PageErase dev s1 ?new")
  from r ini w1 rc1 e z have rc2: "rc2 = 0"
    by (auto simp: SoftEEPROMClear_def Let_def sg1 split: if_splits)
  note pe = PageErase_ok [OF dev cfg1 al(1) e [unfolded rc2], unfolded sg1(6)]
  note sg2 = same_globals_cfg [OF same_globals_trans [OF g1 pe(1)]]
  obtain rc3 s3 where w3: "PageDataWrite dev s2 [flash s2 ?A + 1] ?new 4 = (rc3, s3)"
    by (cases "PageDataWrite dev s2 [flash s2 ?A + 1] ?new 4")
  from r ini w1 rc1 e rc2 w3 z
  have rc3: "rc3 = 0" and s': "s' = s3\<lparr>g_pucActivePage := ?new, g_pucNextAvailEntry := ?new + 8\<rparr>"
    by (auto simp: SoftEEPROMClear_def Let_def sg1 sg2 split: if_splits)
  have in_new: "flash s2 x = ERASED_WORD" if "?new \<le> x \<and> x < ?new + ?pg" for x
    using that by (simp add: pe(2))
  have out_new: "flash s2 x = m1 x" if "\<not> (?new \<le> x \<and> x < ?new + ?pg)" for x
    using that by (auto simp: pe(2) s1)
  have i1: "?new \<le> ?new \<and> ?new < ?new + ?pg" using pg1024 by simp
  have i2: "?new \<le> ?new + 4 \<and> ?new + 4 < ?new + ?pg" using pg1024 by simp
  note aA = page_status_apart [OF cfg ap np(1) np(2) [symmetric]]
  have "flash s2 ?A = m1 ?A" by (rule out_new [OF aA(1)])
  then have genA: "flash s2 ?A = flash s ?A" by (simp add: m1_def)
  define m3 where "m3 = (flash s2)(?new := flash s ?A + 1)"
  have s3: "s3 = s2\<lparr>flash := m3, steps := steps s2 @ [m3]\<rparr>"
    using PageDataWrite_one [OF dev w3 [unfolded rc3] in_new [OF i1]] by (simp add: m3_def genA)
  have n1: "p = ?new" if p: "p \<in> set (pages s)" and a1: "PageIsActive m1 p" for p
  proof (cases "p = ?A")
    case True
    then show ?thesis using z0 a1 by (simp add: PageIsActive_def m1_def)
  next
    case False
    note a = page_status_apart [OF cfg p ap False]
    have "PageIsActive m1 p = PageIsActive (flash s) p"
      by (rule PageIsActive_cong) (use a(3,4) in \<open>simp_all add: m1_def\<close>)
    with act p False a1 show ?thesis by (auto simp: active_ok_def)
  qed
  have n2: "\<not> PageIsActive m p" if p: "p \<in> set (pages s)"
    and m: "(\<forall>x. \<not> (?new \<le> x \<and> x < ?new + ?pg) \<longrightarrow> m x = flash s1 x) \<and>
            m ?new = ERASED_WORD \<and> m (?new + 4) = ERASED_WORD" for m p
  proof (cases "p = ?new")
    case True
    then show ?thesis using m by (simp add: PageIsActive_def)
  next
    case False
    note a = page_status_apart [OF cfg p np(1) False]
    have "PageIsActive m p = PageIsActive m1 p"
      by (rule PageIsActive_cong) (use m a(1,2) in \<open>simp_all add: s1\<close>)
    with n1 [OF p] False show ?thesis by blast
  qed
  have a3: "PageIsActive m3 p \<longleftrightarrow> p = ?new" if p: "p \<in> set (pages s)" for p
  proof (cases "p = ?new")
    case True
    then show ?thesis using gen in_new [OF i2] by (simp add: PageIsActive_def m3_def)
  next
    case False
    note a = page_status_apart [OF cfg p np(1) False]
    have "p + 4 \<noteq> ?new" using a(2) pg1024 by auto
    then have "PageIsActive m3 p = PageIsActive (flash s2) p"
      by (intro PageIsActive_cong) (use False in \<open>simp_all add: m3_def\<close>)
    also have "\<dots> = PageIsActive m1 p"
      by (rule PageIsActive_cong) (use out_new a(1,2) in simp_all)
    finally show ?thesis using n1 [OF p] False by blast
  qed
  have c1: "active_count s m1 \<le> 1" by (rule active_count_le1) (rule n1)
  have c2: "active_count s m \<le> 1"
    if "(\<forall>x. \<not> (?new \<le> x \<and> x < ?new + ?pg) \<longrightarrow> m x = flash s1 x) \<and>
            m ?new = ERASED_WORD \<and> m (?new + 4) = ERASED_WORD" for m
  proof -
    have "active_count s m = 0" by (rule active_count_0) (rule n2 [OF _ that])
    then show ?thesis by simp
  qed
  have "active_count s m3 = 1" by (rule active_count_1 [OF np(1)]) (rule a3)
  then have c3: "active_count s m3 \<le> 1" by simp
  have "steps_from s s1 (\<lambda>m. active_count s m \<le> 1)"
    by (rule steps_from_step [of _ _ m1]) (simp add: s1, rule c1)
  moreover have "steps_from s1 s2 (\<lambda>m. active_count s m \<le> 1)"
    by (rule steps_from_mono [OF pe(3)]) (rule c2)
  moreover have "steps_from s2 s' (\<lambda>m. active_count s m \<le> 1)"
    by (rule steps_from_step [of _ _ m3]) (simp add: s' s3, rule c3)
  ultimately show "steps_from s s' (\<lambda>m. active_count s m \<le> 1)"
    by (blast intro: steps_from_trans)
  have fs: "flash s' = m3" and act: "g_pucActivePage s' = ?new"
    and nav: "g_pucNextAvailEntry s' = ?new + 8 + 4 * 0"
    by (simp_all add: s' s3)
  have sgs: "same_globals s (s'\<lparr>g_pucActivePage := ?A, g_pucNextAvailEntry := g_pucNextAvailEntry s\<rparr>)"
    using same_globals_trans [OF g1 pe(1)] by (simp add: s' s3 same_globals_def)
  have cs: "cap s' = cap s" "cfg_ok s'" "pages s' = pages s" "g_bEEPROMInitialized s'"
    using same_globals_cfg(1,2,3,10) [OF sgs] cfg ini
    by (simp_all add: cap_def cfg_ok_def pages_def)
  have us: "used s' = 0" by (rule used_eq) (simp only: nav act)
  show "one_active s'"
    unfolding one_active_def cs(3) fs act using a3 by simp
  show es: "entries s' = []" by (simp add: entries_def us)
  have st4: "flash s' (?new + 4) = ERASED_WORD"
    using in_new [OF i2] by (simp add: fs m3_def)
  have rest: "flash s' (?new + 8 + 4 * i) = ERASED_WORD" if "i < cap s" for i
  proof -
    have "?new \<le> ?new + 8 + 4 * i \<and> ?new + 8 + 4 * i < ?new + ?pg" using that pg by simp
    from in_new [OF this] show ?thesis by (simp add: fs m3_def)
  qed
  show "state_ok s'"
    unfolding state_ok_def act nav us cs(1) cs(3) es
    using cs(2) cs(4) np(1) st4 rest by simp
qed

lemma nor_PageDataWrite:
  "fst (PageDataWrite (nor_flash sz) s d a n) = 0"
  by (simp add: PageDataWrite_def program_step_def nor_flash_def PageDataWrite_verify_0)

lemma nor_erase_loop:
  "fst (PageErase_loop (nor_flash sz) s a lim) = 0"
proof (induction "nor_flash sz" s a lim rule: PageErase_loop.induct)
  case (1 s a lim)
  show ?case
  proof (cases "a < lim")
    case False
    then show ?thesis by (simp add: PageErase_loop.simps [of _ s a lim])
  next
    case True
    obtain s1 where e: "erase_step (nor_flash sz) s a = (0, s1)"
      by (simp add: erase_step_def nor_flash_def)
    from "1.hyps" [OF True e [symmetric]] e True show ?thesis
      by (simp add: PageErase_loop_unfold)
  qed
qed

lemma nor_PageErase:
  assumes cfg: "cfg_ok s" and al: "p mod FLASH_ERASE_SIZE = 0"
  shows "fst (PageErase (nor_flash sz) s p) = 0"
proof -
  let ?k = "g_ulEEPROMPgSize s div FLASH_ERASE_SIZE"
  have pg: "g_ulEEPROMPgSize s = ?k * FLASH_ERASE_SIZE" using cfg_pg(4) [OF cfg] .
  have pg1024: "1024 \<le> g_ulEEPROMPgSize s" by (rule cfg_pg(5) [OF cfg])
  obtain rc s1 where l: "PageErase_loop (nor_flash sz) s p (p + g_ulEEPROMPgSize s) = (rc, s1)"
    by (cases "PageErase_loop (nor_flash sz) s p (p + g_ulEEPROMPgSize s)")
  with nor_erase_loop [of sz s p "p + g_ulEEPROMPgSize s"] have rc: "rc = 0" by simp
  with l have "PageErase_loop (nor_flash sz) s p (p + ?k * FLASH_ERASE_SIZE) = (0, s1)"
    using pg by simp
  from PageErase_loop_ok [OF nor_flash_ok al this]
  have "\<And>x. flash s1 x = (if p \<le> x \<and> x < p + ?k * FLASH_ERASE_SIZE then ERASED_WORD else flash s x)"
    by simp
  then have "\<And>x. flash s1 x = (if p \<le> x \<and> x < p + g_ulEEPROMPgSize s then ERASED_WORD else flash s x)"
    using pg by simp
  with pg1024 have "flash s1 p = ERASED_WORD" "flash s1 (p + 4) = ERASED_WORD" by simp_all
  with l rc show ?thesis by (simp add: PageErase_def)
qed

lemma nor_PageSwap_entry:
  "PageSwap_entry (nor_flash sz) s l = Some (rc, s', l') \<Longrightarrow> rc = 0"
  using nor_PageDataWrite [of sz s]
  by (auto simp: PageSwap_entry_def Let_def prod_eq_iff split: if_splits prod.splits)

lemma nor_PageSwap_copy:
  "PageSwap_copy (nor_flash sz) n s l = Some (rc, s', l') \<Longrightarrow> rc = 0"
proof (induction n arbitrary: s l)
  case 0
  then show ?case by simp
next
  case (Suc n)
  then show ?case
    by (auto split: option.splits if_splits dest: nor_PageSwap_entry)
qed

lemma nor_PageSwap_flush:
  "fst (PageSwap_flush (nor_flash sz) s l) = 0"
  using nor_PageDataWrite [of sz s "ulDataBuffer l" "pucNewEntry l" "length (ulDataBuffer l) * 4"]
  by (auto simp: PageSwap_flush_def split: prod.splits)

lemma nor_PageSwap_mark:
  "pnew < new + g_ulEEPROMPgSize s \<Longrightarrow> fst (PageSwap_mark (nor_flash sz) s full new pnew) = 0"
  by (simp add: PageSwap_mark_def PageDataWrite_def program_step_def nor_flash_def
        PageDataWrite_verify_0 Let_def)

lemma distinct_bounded:
  assumes "distinct (map f xs)" "\<forall>x \<in> set xs. f x < (n :: nat)"
  shows "length xs \<le> n"
proof -
  have "length xs = card (f ` set xs)"
    using distinct_card [OF assms(1)] by simp
  also have "\<dots> \<le> card {..<n}"
    by (rule card_mono) (use assms(2) in auto)
  finally show ?thesis by simp
qed

lemma keep_bounded:
  assumes "\<forall>e \<in> set xs. valid_entry e"
  shows "length (keep xs) \<le> NUM_IDS"
proof (rule distinct_bounded [of ident])
  show "distinct (map ident (keep xs))" by (rule keep_distinct)
  show "\<forall>x \<in> set (keep xs). ident x < NUM_IDS"
    using assms keep_subset [of xs] by (auto simp: valid_entry_def ident_def)
qed

lemma swap_start:
  assumes dev: "dev_ok dev" and ok: "state_ok s" and fl: "used s = cap s"
    and e: "PageErase dev s (next_page s (g_pucActivePage s)) = (0, b)"
  shows "swap_ctx dev b (g_pucActivePage s) (next_page s (g_pucActivePage s))"
    and "copy_inv b (g_pucActivePage s) (next_page s (g_pucActivePage s)) 0 b
           \<lparr> pucUsedEntry = g_pucActivePage s + g_ulEEPROMPgSize b - 4,
             ucIDSwapped = replicate NUM_VECTOR_BYTES 0,
             ulDataBuffer = [],
             ulByteCount = 32 - (word_of_nat (next_page s (g_pucActivePage s) + 8) AND 0x7F),
             pucNewEntry = next_page s (g_pucActivePage s) + 8 \<rparr>"
    and "tail_slots b (g_pucActivePage s) (cap b) = rev (entries s)"
    and "same_globals s b"
proof -
  let ?full = "g_pucActivePage s" and ?new = "next_page s (g_pucActivePage s)"
  let ?pg = "g_ulEEPROMPgSize s" and ?c = "cap s"
  from ok have cfg: "cfg_ok s" and fp: "?full \<in> set (pages s)"
    and val: "\<forall>e \<in> set (entries s). valid_entry e"
    by (simp_all add: state_ok_def)
  note pg = cfg_pg(1) [OF cfg]
  have pg0: "0 < ?pg" and pg1024: "1024 \<le> ?pg" using cfg_pg(5) [OF cfg] by simp_all
  note np = next_page_in_pages [OF cfg fp]
  have dis: "?full + ?pg \<le> ?new \<or> ?new + ?pg \<le> ?full"
    by (rule pages_disjoint [OF pg0 fp np(1) np(2) [symmetric]])
  note al = pages_aligned [OF cfg np(1)]
  note pe = PageErase_ok [OF dev cfg al(1) e]
  note sg = same_globals_cfg [OF pe(1)]
  show "same_globals s b" by (rule pe(1))
  have fb: "flash b x = flash s x" if "\<not> (?new \<le> x \<and> x < ?new + ?pg)" for x
    using that by (auto simp: pe(2))
  have eb: "flash b x = ERASED_WORD" if "?new \<le> x \<and> x < ?new + ?pg" for x
    using that by (simp add: pe(2))
  have ent: "entries s = map (\<lambda>i. flash s (?full + 8 + 4 * i)) [0..<?c]"
    by (simp add: entries_def fl)
  have slot: "flash b (?full + 8 + 4 * i) = flash s (?full + 8 + 4 * i)" if "i < ?c" for i
    by (rule fb) (use dis pg that in auto)
  show "swap_ctx dev b ?full ?new"
    unfolding swap_ctx_def sg
  proof (intro conjI allI impI)
    show "dev_ok dev" by (rule dev)
    show "cfg_ok s" by (rule cfg)
    show "?full + ?pg \<le> ?new \<or> ?new + ?pg \<le> ?full" by (rule dis)
    show "valid_entry (flash b (?full + 8 + 4 * i))" if "i < ?c" for i
      using val that by (simp add: ent slot)
    show "flash b x = ERASED_WORD" if "?new \<le> x \<and> x < ?new + ?pg" for x
      by (rule eb [OF that])
  qed
  have "1024 dvd ?new" using al(1) by (simp add: FLASH_ERASE_SIZE_def dvd_eq_mod_eq_0)
  then obtain q where "?new = 128 * (8 * q)" by (auto simp: dvd_def)
  then have n128: "?new mod 128 = 0" by simp
  have "4 \<le> g_ulEEPROMPgSize b" using pg1024 sg by simp
  from copy_inv_init [OF n128 this]
  show "copy_inv b ?full ?new 0 b
           \<lparr> pucUsedEntry = ?full + g_ulEEPROMPgSize b - 4,
             ucIDSwapped = replicate NUM_VECTOR_BYTES 0,
             ulDataBuffer = [],
             ulByteCount = 32 - (word_of_nat (?new + 8) AND 0x7F),
             pucNewEntry = ?new + 8 \<rparr>" .
  have "tail_slots b ?full (cap b) = rev (map (\<lambda>i. flash b (?full + 8 + 4 * i)) [0..<cap b])"
    by (rule tail_slots_all)
  also have "map (\<lambda>i. flash b (?full + 8 + 4 * i)) [0..<cap b] = entries s"
    using slot by (simp add: sg(1) ent)
  finally show "tail_slots b ?full (cap b) = rev (entries s)" .
qed

lemma nor_PageSwap:
  assumes ok: "state_ok s" and fl: "used s = cap s"
  shows "\<exists>s'. PageSwap (nor_flash sz) s (g_pucActivePage s) = Some (0, s')"
proof -
  let ?dev = "nor_flash sz"
  let ?full = "g_pucActivePage s" and ?new = "next_page s (g_pucActivePage s)"
  let ?pg = "g_ulEEPROMPgSize s" and ?c = "cap s"
  from ok have cfg: "cfg_ok s" and fp: "?full \<in> set (pages s)"
    and val: "\<forall>e \<in> set (entries s). valid_entry e"
    by (simp_all add: state_ok_def)
  note pg = cfg_pg(1) [OF cfg]
  have pg1024: "1024 \<le> ?pg" by (rule cfg_pg(5) [OF cfg])
  note np = next_page_in_pages [OF cfg fp]
  note al = pages_aligned [OF cfg np(1)]
  obtain b where e: "PageErase ?dev s ?new = (0, b)"
    using nor_PageErase [OF cfg al(1), of sz] by (cases "PageErase ?dev s ?new") simp
  note st = swap_start [OF nor_flash_ok ok fl e]
  note sg = same_globals_cfg [OF st(4)]
  have cfgb: "cfg_ok b" using cfg sg(2) by simp
  define l0 where "l0 = \<lparr> pucUsedEntry = ?full + g_ulEEPROMPgSize b - 4,
       ucIDSwapped = replicate NUM_VECTOR_BYTES 0,
       ulDataBuffer = [],
       ulByteCount = 32 - (word_of_nat (?new + 8) AND 0x7F),
       pucNewEntry = ?new + 8 \<rparr>"
  have inv0: "copy_inv b ?full ?new 0 b l0" using st(2) by (simp add: l0_def)
  from PageSwap_copy_ok [OF st(1) inv0, of "cap b"] obtain rc2 s2 l2 where
    cp: "PageSwap_copy ?dev (usSize b) b l0 = Some (rc2, s2, l2)"
    and i2: "rc2 = 0 \<longrightarrow> copy_inv b ?full ?new (cap b) s2 l2"
    by (auto simp: cfg_pg(3) [OF cfgb])
  have rc2: "rc2 = 0" by (rule nor_PageSwap_copy [OF cp])
  obtain s3 l3 where fs: "PageSwap_flush ?dev s2 l2 = (0, s3, l3)"
    using nor_PageSwap_flush [of sz s2 l2] by (cases "PageSwap_flush ?dev s2 l2") simp
  from i2 rc2 have "copy_inv b ?full ?new (cap b) s2 l2" by simp
  from PageSwap_flush_ok [OF st(1) this fs] obtain nf where
    K: "keep (tail_slots b ?full (cap b)) = map (\<lambda>i. flash s3 (?new + 8 + 4 * i)) [0..<nf]"
    and P: "pucNewEntry l3 = ?new + 8 + 4 * nf"
    and G3: "same_globals b s3"
    unfolding copied_def by blast
  have "nf = length (keep (rev (entries s)))"
    using arg_cong [OF K, of length] by (simp add: st(3))
  also have "\<dots> \<le> NUM_IDS" by (rule keep_bounded) (use val in simp)
  finally have "nf \<le> 127" by (simp add: cdefs)
  then have "pucNewEntry l3 < ?new + g_ulEEPROMPgSize s3"
    using P pg1024 same_globals_cfg(6) [OF same_globals_trans [OF st(4) G3]] by simp
  from nor_PageSwap_mark [OF this, of sz ?full]
  obtain s' where mk: "PageSwap_mark ?dev s3 ?full ?new (pucNewEntry l3) = (0, s')"
    by (cases "PageSwap_mark ?dev s3 ?full ?new (pucNewEntry l3)") simp
  from e cp rc2 fs mk have "PageSwap ?dev s ?full = Some (0, s')"
    by (simp add: PageSwap_def Let_def l0_def)
  then show ?thesis ..
qed

lemma nor_Write:
  assumes ok: "state_ok s" and k: "unat k < NUM_IDS"
  shows "\<exists>s'. SoftEEPROMWrite (nor_flash sz) s k v = Some (0, s')"
proof -
  from ok have cfg: "cfg_ok s" and ini: "g_bEEPROMInitialized s"
    and na: "g_pucNextAvailEntry s = g_pucActivePage s + 8 + 4 * used s" and u: "used s \<le> cap s"
    by (simp_all add: state_ok_def)
  have full: "g_pucNextAvailEntry s \<ge> g_pucActivePage s + g_ulEEPROMPgSize s \<longleftrightarrow> used s = cap s"
    using na cfg_pg(1) [OF cfg] u by auto
  have w: "\<exists>s2. PageDataWrite (nor_flash sz) s1 [make_entry k v] (g_pucNextAvailEntry s1) 4 = (0, s2)" for s1
    using nor_PageDataWrite [of sz s1 "[make_entry k v]" "g_pucNextAvailEntry s1" 4]
    by (cases "PageDataWrite (nor_flash sz) s1 [make_entry k v] (g_pucNextAvailEntry s1) 4") simp
  show ?thesis
  proof (cases "used s = cap s")
    case True
    from nor_PageSwap [OF ok True, of sz] obtain s1 where
      sw: "PageSwap (nor_flash sz) s (g_pucActivePage s) = Some (0, s1)" ..
    from w [of s1] obtain s2 where
      "PageDataWrite (nor_flash sz) s1 [make_entry k v] (g_pucNextAvailEntry s1) 4 = (0, s2)" ..
    with sw ini k True full show ?thesis by (simp add: SoftEEPROMWrite_def)
  next
    case False
    from w [of s] obtain s2 where
      "PageDataWrite (nor_flash sz) s [make_entry k v] (g_pucNextAvailEntry s) 4 = (0, s2)" ..
    with ini k False full show ?thesis by (simp add: SoftEEPROMWrite_def)
  qed
qed

lemma nor_write_all:
  "state_ok s \<Longrightarrow> \<forall>(k, v) \<in> set ops. unat k < NUM_IDS \<Longrightarrow>
     \<exists>s'. write_all (nor_flash sz) s ops = Some s'"
proof (induction ops arbitrary: s)
  case Nil
  then show ?case by simp
next
  case (Cons op ops)
  obtain k v where op: "op = (k, v)" by (cases op)
  with Cons.prems(2) have k: "unat k < NUM_IDS" by simp
  from nor_Write [OF Cons.prems(1) k, of sz v] obtain s1 where
    w: "SoftEEPROMWrite (nor_flash sz) s k v = Some (0, s1)" ..
  note wo = Write_ok [OF nor_flash_ok Cons.prems(1) w]
  from Cons.IH [OF wo(1)] Cons.prems(2) obtain s' where "write_all (nor_flash sz) s1 ops = Some s'"
    by auto
  with w op show ?case by simp
qed

lemma nor_Clear:
  assumes ok: "state_ok s"
  shows "fst (SoftEEPROMClear (nor_flash sz) s) = 0"
proof -
  let ?A = "g_pucActivePage s"
  from ok have cfg: "cfg_ok s" and ini: "g_bEEPROMInitialized s" and ap: "?A \<in> set (pages s)"
    by (simp_all add: state_ok_def)
  note al = pages_aligned [OF cfg next_page_in_pages(1) [OF cfg ap]]
  obtain s1 where w1: "PageDataWrite (nor_flash sz) s [NOT ERASED_WORD] (?A + 4) 4 = (0, s1)"
    using nor_PageDataWrite [of sz s "[NOT ERASED_WORD]" "?A + 4" 4]
    by (cases "PageDataWrite (nor_flash sz) s [NOT ERASED_WORD] (?A + 4) 4") simp
  then have g: "same_globals s s1"
    by (auto simp: PageDataWrite_def program_step_def nor_flash_def same_globals_def)
  note sg = same_globals_cfg [OF g]
  have cfg1: "cfg_ok s1" using cfg sg(2) by simp
  obtain s2 where e: "PageErase (nor_flash sz) s1 (next_page s ?A) = (0, s2)"
    using nor_PageErase [OF cfg1 al(1), of sz]
    by (cases "PageErase (nor_flash sz) s1 (next_page s ?A)") simp
  obtain s3 where w3:
    "PageDataWrite (nor_flash sz) s2 [flash s2 (g_pucActivePage s2) + 1] (next_page s ?A) 4 = (0, s3)"
    using nor_PageDataWrite [of sz s2 "[flash s2 (g_pucActivePage s2) + 1]" "next_page s ?A" 4]
    by (cases "PageDataWrite (nor_flash sz) s2 [flash s2 (g_pucActivePage s2) + 1] (next_page s ?A) 4")
       simp
  from ini w1 e w3 show ?thesis
    by (simp add: SoftEEPROMClear_def Let_def sg)
qed

lemma full_page_ok: "state_ok full_page"
  unfolding state_ok_def
  by (simp add: full_page_def pages_def ready_def page_addrs.simps cfg_ok_def used_def cap_def
        entries_def full_flash_def valid_entry_def usEntryID_of_def cdefs)

lemma mask_aligned:
  fixes x :: "32 word"
  assumes "unat x mod EEPROM_BOUNDARY = 0"
  shows "unat (x AND NOT (word_of_nat EEPROM_BOUNDARY - 1)) = unat x"
proof -
  have m: "(word_of_nat EEPROM_BOUNDARY - 1 :: 32 word) = mask 12"
    by (simp add: EEPROM_BOUNDARY_def mask_eq_exp_minus_1)
  have "take_bit 12 (unat x) = 0"
    using assms by (simp add: take_bit_eq_mod EEPROM_BOUNDARY_def)
  then have "take_bit 12 x = 0"
    by (metis unsigned_take_bit_eq unat_eq_0)
  then have "x AND NOT (mask 12) = x"
    by (metis (no_types, lifting) and.commute bit.de_Morgan_disj
        bit.double_compl take_bit_eq_mask take_bit_not_take_bit word_and_not
        word_ao_absorbs(4))
  then show ?thesis by (simp add: m)
qed

lemma Init_save_asserts:
  "init_asserts ulStart ulEnd ulSize \<Longrightarrow>
     Init_save s ulStart ulEnd ulSize =
       s\<lparr>g_pucEEPROMStart := unat ulStart, g_pucEEPROMEnd := unat ulEnd,
          g_ulEEPROMPgSize := unat ulSize\<rparr>"
  by (simp add: init_asserts_def Init_save_def mask_aligned)

lemma count_fold:
  "fold (\<lambda>p c. if P p then c + 1 else c) ps (c0 :: 8 word) = c0 + of_nat (length (filter P ps))"
  by (induction ps arbitrary: c0) (simp_all add: add.assoc add.commute)

lemma GetActivePageCount_filter:
  "GetActivePageCount s = of_nat (length (filter (PageIsActive (flash s)) (pages s)))"
  by (simp add: GetActivePageCount_def count_fold)

lemma start_in_pages:
  assumes "cfg_ok s"
  shows "g_pucEEPROMStart s \<in> set (pages s)"
proof -
  from assms have pg: "0 < g_ulEEPROMPgSize s"
    and "g_pucEEPROMStart s + 2 * g_ulEEPROMPgSize s \<le> g_pucEEPROMEnd s"
    by (simp_all add: cfg_ok_def)
  then have "g_pucEEPROMStart s = g_pucEEPROMStart s + 0 * g_ulEEPROMPgSize s \<and>
      g_pucEEPROMStart s < g_pucEEPROMEnd s" by simp
  then show ?thesis unfolding pages_def page_addrs_iff [OF pg] by blast
qed

lemma activate_steps:
  assumes dev: "dev_ok dev" and cfg: "cfg_ok s" and P: "P \<in> set (pages s)"
    and others: "\<And>p. p \<in> set (pages s) \<Longrightarrow> p \<noteq> P \<Longrightarrow> \<not> PageIsActive (flash s) p"
    and e: "PageErase dev s P = (0, s1)" and a: "Init_activate dev s1 g P = (0, s')"
  shows "steps_from s s' (\<lambda>m. active_count s m \<le> 1)"
    and "\<And>p. p \<in> set (pages s) \<Longrightarrow> PageIsActive (flash s') p \<longleftrightarrow> p = P \<and> g \<noteq> ERASED_WORD"
    and "g_pucActivePage s' = P" and "pages s' = pages s" and "flash s' P = g"
proof -
  let ?pg = "g_ulEEPROMPgSize s"
  have pg1024: "1024 \<le> ?pg" by (rule cfg_pg(5) [OF cfg])
  note al = pages_aligned [OF cfg P]
  note pe = PageErase_ok [OF dev cfg al(1) e]
  have i1: "P \<le> P \<and> P < P + ?pg" using pg1024 by simp
  have i2: "P \<le> P + 4 \<and> P + 4 < P + ?pg" using pg1024 by simp
  have e1: "flash s1 P = ERASED_WORD" and e2: "flash s1 (P + 4) = ERASED_WORD"
    using i1 i2 by (simp_all add: pe(2))
  have z: "ERR_PG_WRITE \<noteq> (0 :: int)" by (simp add: cdefs)
  obtain rc s2 where w: "PageDataWrite dev s1 [g] P 4 = (rc, s2)"
    by (cases "PageDataWrite dev s1 [g] P 4")
  from a w z have rc: "rc = 0"
    and s': "s' = s2\<lparr>g_pucActivePage := P, g_pucNextAvailEntry := P + 8\<rparr>"
    by (auto simp: Init_activate_def split: if_splits)
  define m where "m = (flash s1)(P := g)"
  have s2: "s2 = s1\<lparr>flash := m, steps := steps s1 @ [m]\<rparr>"
    using PageDataWrite_one [OF dev w [unfolded rc] e1] by (simp add: m_def)
  have fs: "flash s' = m" by (simp add: s' s2)
  show "g_pucActivePage s' = P" by (simp add: s')
  show "flash s' P = g" by (simp add: fs m_def)
  have "same_globals s (s'\<lparr>g_pucActivePage := g_pucActivePage s,
          g_pucNextAvailEntry := g_pucNextAvailEntry s\<rparr>)"
    using pe(1) by (simp add: s' s2 same_globals_def)
  from same_globals_cfg(3) [OF this] show pgs: "pages s' = pages s" by (simp add: pages_def)
  have off: "\<not> PageIsActive m' p"
    if p: "p \<in> set (pages s)" and ne: "p \<noteq> P"
      and m': "m' p = flash s p" "m' (p + 4) = flash s (p + 4)" for m' p
    using others [OF p ne] PageIsActive_cong [OF m'] by simp
  have erase: "active_count s m' \<le> 1"
    if m': "(\<forall>x. \<not> (P \<le> x \<and> x < P + ?pg) \<longrightarrow> m' x = flash s x) \<and>
            m' P = ERASED_WORD \<and> m' (P + 4) = ERASED_WORD" for m'
  proof (rule active_count_le1 [of _ _ P])
    fix p assume p: "p \<in> set (pages s)" and ac: "PageIsActive m' p"
    show "p = P"
    proof (rule ccontr)
      assume ne: "p \<noteq> P"
      note ap = page_status_apart [OF cfg p P ne]
      from m' ap(1,2) have "m' p = flash s p" "m' (p + 4) = flash s (p + 4)" by simp_all
      from off [OF p ne this] ac show False ..
    qed
  qed
  have act: "PageIsActive m p \<longleftrightarrow> p = P \<and> g \<noteq> ERASED_WORD" if p: "p \<in> set (pages s)" for p
  proof (cases "p = P")
    case True
    then show ?thesis using e2 by (simp add: PageIsActive_def m_def)
  next
    case False
    note ap = page_status_apart [OF cfg p P False]
    have n4: "p + 4 \<noteq> P" using ap(2) pg1024 by auto
    have "m p = flash s p" "m (p + 4) = flash s (p + 4)"
      using False n4 ap(1,2) by (auto simp: m_def pe(2))
    from off [OF p False this] False show ?thesis by simp
  qed
  show "PageIsActive (flash s') p \<longleftrightarrow> p = P \<and> g \<noteq> ERASED_WORD" if "p \<in> set (pages s)" for p
    unfolding fs by (rule act [OF that])
  have cm: "active_count s m \<le> 1"
    by (rule active_count_le1 [of _ _ P]) (simp add: act)
  have "steps_from s s1 (\<lambda>m. active_count s m \<le> 1)"
    by (rule steps_from_mono [OF pe(3)]) (rule erase)
  moreover have "steps_from s1 s' (\<lambda>m. active_count s m \<le> 1)"
    by (rule steps_from_step [of _ _ m]) (simp add: s' s2, rule cm)
  ultimately show "steps_from s s' (\<lambda>m. active_count s m \<le> 1)"
    by (blast intro: steps_from_trans)
qed

lemma count8:
  assumes "n < 256"
  shows "(of_nat n :: 8 word) = 0 \<longleftrightarrow> n = 0" "(of_nat n :: 8 word) = 1 \<longleftrightarrow> n = 1"
    "(of_nat n :: 8 word) = 2 \<longleftrightarrow> n = 2"
proof -
  have u: "unat (of_nat n :: 8 word) = n" using assms by (simp add: unat_of_nat)
  show "(of_nat n :: 8 word) = 0 \<longleftrightarrow> n = 0" using u by (metis unat_eq_0)
  show "(of_nat n :: 8 word) = 1 \<longleftrightarrow> n = 1" using u by (metis of_nat_1 unsigned_1)
  show "(of_nat n :: 8 word) = 2 \<longleftrightarrow> n = 2"
  proof
    assume "(of_nat n :: 8 word) = 2"
    then have "unat (of_nat n :: 8 word) = unat (2 :: 8 word)" by simp
    with u show "n = 2" by simp
  qed simp
qed

lemma Init_find_active_first:
  "filter (PageIsActive (flash s)) (page_addrs p (g_pucEEPROMEnd s) (g_ulEEPROMPgSize s)) = q # qs
   \<Longrightarrow> Init_find_active s p = q"
proof (induction s p rule: Init_find_active.induct)
  case (1 s p)
  then show ?case
    by (auto simp add: Init_find_active.simps [of s p]
          page_addrs.simps [of p "g_pucEEPROMEnd s" "g_ulEEPROMPgSize s"]
          split: if_splits)
qed

lemma MRU_fold:
  "snd (fold (\<lambda>a (c, r). if U a then if (f a :: 32 word) > c then (f a, a) else (c, r) else (c, r))
          ps (c0, r0)) = r0 \<or>
   snd (fold (\<lambda>a (c, r). if U a then if f a > c then (f a, a) else (c, r) else (c, r))
          ps (c0, r0)) \<in> set ps"
proof (induction ps arbitrary: c0 r0)
  case Nil
  then show ?case by simp
next
  case (Cons a ps)
  show ?case
    using Cons.IH [of c0 r0] Cons.IH [of "f a" a] by auto
qed

lemma MRU_in_pages:
  "GetMostRecentlyUsedPage s \<noteq> 0xFFFFFFFF \<Longrightarrow> GetMostRecentlyUsedPage s \<in> set (pages s)"
  unfolding GetMostRecentlyUsedPage_def
  using MRU_fold [of "PageIsUsed (flash s)" "flash s" "pages s" 0 "0xFFFFFFFF"] by auto

lemma activate_branch:
  assumes dev: "dev_ok dev" and cfg: "cfg_ok s" and P: "P \<in> set (pages s)"
    and others: "\<And>p. p \<in> set (pages s) \<Longrightarrow> p \<noteq> P \<Longrightarrow> \<not> PageIsActive (flash s) p"
    and e: "PageErase dev s P = (0, s1)" and a: "Init_activate dev s1 g P = (0, s')"
  shows "init_window s s'"
proof -
  note as = activate_steps [OF dev cfg P others e a]
  have le: "active_count s (flash s') \<le> 1"
    by (rule active_count_le1 [of _ _ P]) (simp add: as(2))
  have "active_count s (flash s') = 1" if "flash s' (g_pucActivePage s') \<noteq> ERASED_WORD"
    by (rule active_count_1 [OF P]) (use that in \<open>simp add: as(2) as(3) as(5)\<close>)
  with le as(1) as(4) show ?thesis by (auto simp: init_window_def)
qed

lemma quiet_branch:
  assumes "flash s' = flash s" and "steps s' = steps s" and "pages s' = pages s"
    and "active_count s (flash s) = 1 \<or> active_count s (flash s) = 2"
  shows "init_window s s'"
  using assms by (auto simp: init_window_def steps_from_def)

lemma Init_recover_steps:
  assumes dev: "dev_ok dev" and cfg: "cfg_ok s" and len: "length (pages s) < 256"
    and r: "Init_recover dev s = Some (0, s')"
  shows "init_window s s'"
proof -
  define n where "n = active_count s (flash s)"
  have fl: "length (filter (PageIsActive (flash s)) (pages s)) = n"
    by (simp add: n_def active_count_def)
  have "n \<le> length (pages s)" unfolding fl [symmetric] by (rule length_filter_le)
  with len have n256: "n < 256" by simp
  have gc: "GetActivePageCount s = of_nat n" by (simp add: GetActivePageCount_filter fl)
  note c8 = count8 [OF n256]
  have z: "ERR_ACTIVE_PG_CNT \<noteq> (0 :: int)" "ERR_PG_ERASE \<noteq> (0 :: int)"
      "ERR_TWO_ACTIVE_NO_FULL \<noteq> (0 :: int)"
    by (simp_all add: cdefs)
  consider "n = 0" | "n = 1" | "n = 2" | "n \<noteq> 0" "n \<noteq> 1" "n \<noteq> 2" by blast
  then show ?thesis
  proof cases
    case 4
    with r z show ?thesis by (simp add: Init_recover_def gc c8)
  next
    case 3
    with r have t: "Init_two_active s = (0, s')" by (simp add: Init_recover_def gc c8)
    then have "flash s' = flash s" "steps s' = steps s" "pages s' = pages s"
      using z by (auto simp: Init_two_active_def pages_def split: prod.splits if_splits)
    then show ?thesis using 3 by (intro quiet_branch) (simp_all add: n_def)
  next
    case 1
    then have none: "\<not> PageIsActive (flash s) p" if "p \<in> set (pages s)" for p
      using fl that by (auto simp: filter_empty_conv)
    from 1 r have na: "Init_no_active dev s = Some (0, s')" by (simp add: Init_recover_def gc c8)
    show ?thesis
    proof (cases "GetUsedPageCount s = 0")
      case True
      let ?P = "g_pucEEPROMStart s"
      obtain rc s1 where e: "PageErase dev s ?P = (rc, s1)" by (cases "PageErase dev s ?P")
      with na True z have rc: "rc = 0" by (auto simp: Init_no_active_def split: if_splits)
      note P = start_in_pages [OF cfg]
      note pe = PageErase_ok [OF dev cfg pages_aligned(1) [OF cfg P] e [unfolded rc]]
      have "g_pucEEPROMStart s1 = ?P" using pe(1) by (simp add: same_globals_def)
      with na True e rc have a: "Init_activate dev s1 0 ?P = (0, s')"
        by (simp add: Init_no_active_def)
      show ?thesis by (rule activate_branch [OF dev cfg P none e [unfolded rc] a])
    next
      case False
      let ?M = "GetMostRecentlyUsedPage s"
      let ?P = "next_page s ?M"
      from na False have M: "?M \<noteq> 0xFFFFFFFF"
        by (auto simp: Init_no_active_def Let_def split: if_splits)
      note P = next_page_in_pages(1) [OF cfg MRU_in_pages [OF M]]
      obtain rc s1 where e: "PageErase dev s ?P = (rc, s1)" by (cases "PageErase dev s ?P")
      with na False M z have rc: "rc = 0"
        by (auto simp: Init_no_active_def Let_def split: if_splits)
      with na False M e have a: "Init_activate dev s1 (flash s ?M + 1) ?P = (0, s')"
        by (simp add: Init_no_active_def Let_def)
      show ?thesis by (rule activate_branch [OF dev cfg P none e [unfolded rc] a])
    qed
  next
    case 2
    with fl obtain q where q: "filter (PageIsActive (flash s)) (pages s) = [q]"
      by (cases "filter (PageIsActive (flash s)) (pages s)") auto
    then have "q \<in> set (filter (PageIsActive (flash s)) (pages s))" by simp
    then have P: "q \<in> set (pages s)" by simp
    have others: "\<not> PageIsActive (flash s) p" if "p \<in> set (pages s)" "p \<noteq> q" for p
    proof
      assume "PageIsActive (flash s) p"
      with that(1) have "p \<in> set (filter (PageIsActive (flash s)) (pages s))" by simp
      with q that(2) show False by simp
    qed
    have fa: "Init_find_active s (g_pucEEPROMStart s) = q"
      by (rule Init_find_active_first [of s _ q "[]"]) (use q in \<open>simp add: pages_def\<close>)
    define prev where "prev = (if q = g_pucEEPROMStart s
                         then g_pucEEPROMEnd s - g_ulEEPROMPgSize s
                         else q - g_ulEEPROMPgSize s)"
    from 2 r have oa: "Init_one_active dev s = (0, s')" by (simp add: Init_recover_def gc c8)
    show ?thesis
    proof (cases "PageIsUsed (flash s) prev \<and> flash s prev \<noteq> flash s q - 1")
      case False
      with oa have "s' = s\<lparr>g_pucActivePage := q,
          g_pucNextAvailEntry := GetNextAvailEntry (s\<lparr>g_pucActivePage := q\<rparr>)\<rparr>"
        by (auto simp: Init_one_active_def Let_def fa prev_def split: if_splits)
      then have "flash s' = flash s" "steps s' = steps s" "pages s' = pages s"
        by (simp_all add: pages_def)
      then show ?thesis using 2 by (intro quiet_branch) (simp_all add: n_def)
    next
      case True
      obtain rc s1 where e: "PageErase dev s q = (rc, s1)" by (cases "PageErase dev s q")
      with oa True z have rc: "rc = 0"
        by (auto simp: Init_one_active_def Let_def fa prev_def split: if_splits)
      with oa True e have a: "Init_activate dev s1 (flash s1 prev + 1) q = (0, s')"
        by (auto simp: Init_one_active_def Let_def fa prev_def split: if_splits)
      show ?thesis by (rule activate_branch [OF dev cfg P others e [unfolded rc] a])
    qed
  qed
qed

lemma Init_steps:
  assumes dev: "dev_ok dev" and cfg: "cfg_ok (Init_save s0 ulStart ulEnd ulSize)"
    and len: "length (pages (Init_save s0 ulStart ulEnd ulSize)) < 256"
    and r: "SoftEEPROMInit dev s0 ulStart ulEnd ulSize = Some (0, s)"
  shows "steps_from s0 s (\<lambda>m. active_count s m \<le> 1)"
    and "active_count s (flash s) \<le> 2"
    and "flash s (g_pucActivePage s) \<noteq> ERASED_WORD \<longrightarrow> 1 \<le> active_count s (flash s)"
    and "active_count s (flash s) = 2 \<longrightarrow> steps s = steps s0 \<and> flash s = flash s0"
proof -
  let ?b = "Init_save s0 ulStart ulEnd ulSize"
  have z: "ERR_RANGE \<noteq> (0 :: int)" by (simp add: cdefs)
  from r z obtain s1 where ir: "Init_recover dev ?b = Some (0, s1)"
    and s: "s = s1\<lparr>g_bEEPROMInitialized := True\<rparr>"
    by (auto simp: SoftEEPROMInit_def split: if_splits option.splits)
  from Init_recover_steps [OF dev cfg len ir] have w: "init_window ?b s1" .
  have pgs: "pages s = pages ?b" using w by (simp add: init_window_def s pages_def)
  have ac: "active_count s m = active_count ?b m" for m
    by (simp add: active_count_def pgs)
  have b: "steps ?b = steps s0" "flash ?b = flash s0" by (simp_all add: Init_save_def)
  from w show "steps_from s0 s (\<lambda>m. active_count s m \<le> 1)"
    by (simp add: init_window_def steps_from_def s ac [unfolded s] b)
  from w show "active_count s (flash s) \<le> 2"
    unfolding ac by (simp add: init_window_def s)
  from w show "flash s (g_pucActivePage s) \<noteq> ERASED_WORD \<longrightarrow> 1 \<le> active_count s (flash s)"
    unfolding ac by (simp add: init_window_def s)
  from w show "active_count s (flash s) = 2 \<longrightarrow> steps s = steps s0 \<and> flash s = flash s0"
    unfolding ac by (simp add: init_window_def s b)
qed

lemma mid_swap_ok: "state_ok mid_swap"
  unfolding state_ok_def
  by (simp add: mid_swap_def pages_def ready_def page_addrs.simps cfg_ok_def used_def cap_def
        entries_def mid_swap_flash_def valid_entry_def usEntryID_of_def cdefs)

lemma mid_swap_active: "active_ok mid_swap \<and> active_count mid_swap (flash mid_swap) = 2"
  unfolding active_ok_def active_count_def
  by (simp add: mid_swap_def pages_def ready_def page_addrs.simps PageIsActive_def next_page_def
        used_def cap_def mid_swap_flash_def cdefs)

lemma mid_swap_init:
  "SoftEEPROMInit ref_dev (blank\<lparr>flash := mid_swap_flash\<rparr>) 0x3D000 0x3E000 0x400 =
     Some (0, mid_swap)"
  by (simp add: init_defs dev_defs blank_def ref_dev_def mid_swap_def ready_def
        mid_swap_flash_def cdefs Let_def)

lemma ref_region:
  "cfg_ok (Init_save s 0x3D000 0x3E000 0x400) \<and>
   length (pages (Init_save s 0x3D000 0x3E000 0x400)) < 256"
  by (simp add: Init_save_def cfg_ok_def pages_def page_addrs.simps cdefs)





section \<open>The claims\<close>

subsection \<open>C3: program verification\<close>

text \<open>
  C3.  Every program operation is claimed to be verified by reading the words back, a
  mismatch giving the program-verify failure.  The verification loop of \<open>PageDataWrite\<close>
  never runs: on a flash whose program command reports success without storing the word,
  \<open>SoftEEPROMWrite\<close> of identifier 1 returns 0 although the entry read back differs from
  the entry written, and the following read does not find the identifier.
\<close>

theorem write_not_verified:
  "SoftEEPROMWrite worn_flash ready 1 2 =
     Some (0, ready\<lparr>steps := [flash ready], g_pucNextAvailEntry := 0x3D00C\<rparr>)
   \<and> flash ready 0x3D008 \<noteq> make_entry 1 2
   \<and> SoftEEPROMRead (ready\<lparr>steps := [flash ready], g_pucNextAvailEntry := 0x3D00C\<rparr>) 1
       = (0, Some (0xFFFF, False))"
  by (simp add: SoftEEPROMWrite_def SoftEEPROMRead_def worn_flash_def ready_def dev_defs cdefs
        make_entry_def PageDataWrite_verify_0)

subsection \<open>C4: what compaction copies\<close>



subsection \<open>C5: recovery from a reset during clear\<close>

text \<open>
  C5.  With no active page and a used page, init is claimed to activate the page after
  the used page of highest generation.  \<open>GetMostRecentlyUsedPage\<close> starts its maximum at
  0 and compares with \<open>>\<close>, so it never selects a used page of generation 0.  After a
  first start (generation 0) and a reset during the first clear, the only used page has
  generation 0: the function returns the sentinel \<open>0xFFFFFFFF\<close>, which init dereferences.
\<close>

theorem clear_crash_generation_0:
  "PageIsUsed clear_crashed 0x3D000
   \<and> clear_crashed 0x3D000 = 0
   \<and> GetActivePageCount (Init_save (blank\<lparr>flash := clear_crashed\<rparr>) 0x3D000 0x3E000 0x400) = 0
   \<and> GetUsedPageCount (Init_save (blank\<lparr>flash := clear_crashed\<rparr>) 0x3D000 0x3E000 0x400) = 1
   \<and> GetMostRecentlyUsedPage (Init_save (blank\<lparr>flash := clear_crashed\<rparr>) 0x3D000 0x3E000 0x400)
       = 0xFFFFFFFF
   \<and> SoftEEPROMInit ref_dev (blank\<lparr>flash := clear_crashed\<rparr>) 0x3D000 0x3E000 0x400 = None"
  by (simp add: clear_crashed_def SoftEEPROMClear_def init_defs dev_defs blank_def ref_dev_def
        cdefs Let_def PageDataWrite_verify_0)

subsection \<open>C7: an illegal identifier is rejected\<close>

text \<open>
  C7.  On an initialized driver, a write with an identifier outside \<open>0 .. NUM_IDS - 1\<close>
  returns \<open>ERR_ILLEGAL_ID\<close> and leaves the whole state as it was: the flash, the active
  page, the next available entry, and no erase or program command is issued (\<open>steps\<close> is
  unchanged).
\<close>

theorem illegal_key_rejected:
  "g_bEEPROMInitialized s \<Longrightarrow> \<not> unat usID < NUM_IDS \<Longrightarrow>
     SoftEEPROMWrite dev s usID usData = Some (ERR_ILLEGAL_ID, s)"
  by (simp add: SoftEEPROMWrite_def)

theorem illegal_key_rejected_witness:
  "g_bEEPROMInitialized ready \<and> \<not> unat (127 :: 16 word) < NUM_IDS \<and>
     SoftEEPROMWrite ref_dev ready 127 5 = Some (ERR_ILLEGAL_ID, ready)"
  using illegal_key_rejected [of ready 127 ref_dev 5]
  by (simp add: ready_def cdefs)

subsection \<open>C9: the range check of the wrapper\<close>

text \<open>
  C9.  A byte range that touches an identifier outside \<open>0 .. NUM_IDS - 1\<close> is claimed to
  be refused with the range error before any write.  The check compares
  \<open>(usAddress + usSize) / 2\<close> with \<open>MAX_SOFTEEPROM_IDS\<close> by \<open>>\<close>: the single byte at address
  254 belongs to identifier 127 and passes it.  The write wrapper then calls
  \<open>SoftEEPROMWrite\<close> with identifier 127, which returns \<open>ERR_ILLEGAL_ID\<close>, and ends in
  \<open>OutputErrorAndQuit\<close>; so does the read wrapper.  Neither returns the range error.
\<close>

theorem wrapper_range_off_by_one:
  "\<not> range_invalid 254 1
   \<and> unat (254 :: 16 word) div 2 = NUM_IDS
   \<and> SoftEEPROMWrite dev (s\<lparr>g_bEEPROMInitialized := True\<rparr>) 127 d
        = Some (ERR_ILLEGAL_ID, s\<lparr>g_bEEPROMInitialized := True\<rparr>)
   \<and> SoftEEPROM_WrapperWrite E dev (s\<lparr>g_bEEPROMInitialized := True\<rparr>) 254 1 [b] = None
   \<and> SoftEEPROM_WrapperRead E (s\<lparr>g_bEEPROMInitialized := True\<rparr>) 254 1 = None"
  by (simp add: range_invalid_def SoftEEPROM_WrapperWrite_def SoftEEPROM_WrapperRead_def
        SoftEEPROMWrite_def SoftEEPROMRead_def OutputErrorAndQuit_None cdefs Let_def
        SoftEEPROM_WrapperWrite_loop.simps SoftEEPROM_WrapperRead_loop.simps)

subsection \<open>C10: bounds of the bit vector in compaction\<close>

text \<open>
  C10.  The identifier of every entry read during compaction is claimed to index the bit
  vector within its \<open>NUM_VECTOR_BYTES\<close> bytes or to fail the guard first.  The guard reads
  the vector before it looks at the identifier, and it tests against \<open>0xFF\<close>, not against
  the erased identifier \<open>0xFFFF\<close>.  A flash with two active pages, the first with its last
  entry programmed and the entry before it erased, is adopted by init; the next write
  starts the swap, whose second pass reads \<open>ucIDSwapped[8191]\<close>.
\<close>

theorem erased_slot_out_of_bounds:
  "map_option fst
     (SoftEEPROMInit ref_dev (blank\<lparr>flash := two_active_flash\<rparr>) 0x3D000 0x3E000 0x400) = Some 0
   \<and> Option.bind (SoftEEPROMInit ref_dev (blank\<lparr>flash := two_active_flash\<rparr>) 0x3D000 0x3E000 0x400)
        (\<lambda>(rc, s). SoftEEPROMWrite ref_dev s 1 5) = None
   \<and> unat (usEntryID_of ERASED_WORD) div 8 = 8191
   \<and> NUM_VECTOR_BYTES = 16"
proof (intro conjI)
  show "map_option fst
     (SoftEEPROMInit ref_dev (blank\<lparr>flash := two_active_flash\<rparr>) 0x3D000 0x3E000 0x400) = Some 0"
    by (simp add: init_defs dev_defs blank_def ref_dev_def two_active_flash_def cdefs Let_def
          PageDataWrite_verify_0)
  show "Option.bind (SoftEEPROMInit ref_dev (blank\<lparr>flash := two_active_flash\<rparr>) 0x3D000 0x3E000 0x400)
        (\<lambda>(rc, s). SoftEEPROMWrite ref_dev s 1 5) = None"
    by (simp add: init_defs dev_defs blank_def ref_dev_def two_active_flash_def cdefs Let_def
          SoftEEPROMWrite_def PageSwap_def PageSwap_copy_numeral PageSwap_entry_def
          usEntryID_of_def PageDataWrite_verify_0)
  show "unat (usEntryID_of ERASED_WORD) div 8 = 8191"
    by (simp add: usEntryID_of_def cdefs)
  show "NUM_VECTOR_BYTES = 16"
    by (simp add: cdefs)
qed

subsection \<open>C8: init and the initialized flag\<close>

text \<open>No function called by \<open>SoftEEPROMInit\<close> reads the initialized flag.\<close>

lemma erase_step_flag:
  "erase_step dev (s\<lparr>g_bEEPROMInitialized := b\<rparr>) a = set_flag b (erase_step dev s a)"
  by (simp add: erase_step_def set_flag_def split: prod.splits)

lemma program_step_flag:
  "program_step dev (s\<lparr>g_bEEPROMInitialized := b\<rparr>) d a n = set_flag b (program_step dev s d a n)"
  by (simp add: program_step_def set_flag_def split: prod.splits)

lemma PageErase_loop_flag:
  "PageErase_loop dev (s\<lparr>g_bEEPROMInitialized := b\<rparr>) a lim = set_flag b (PageErase_loop dev s a lim)"
proof (induction dev s a lim rule: PageErase_loop.induct)
  case (1 dev s pucAddr lim)
  obtain rc s' where e: "erase_step dev s pucAddr = (rc, s')"
    by (cases "erase_step dev s pucAddr")
  show ?case
    using "1.IH" [OF _ e [symmetric]] e
    by (simp add: PageErase_loop.simps [of dev s pucAddr lim]
          PageErase_loop.simps [of dev "s\<lparr>g_bEEPROMInitialized := b\<rparr>" pucAddr lim]
          erase_step_flag set_flag_def)
qed

lemma PageErase_flag:
  "PageErase dev (s\<lparr>g_bEEPROMInitialized := b\<rparr>) p = set_flag b (PageErase dev s p)"
  by (simp add: PageErase_def PageErase_loop_flag set_flag_def split: prod.splits)

lemma PageDataWrite_flag:
  "PageDataWrite dev (s\<lparr>g_bEEPROMInitialized := b\<rparr>) d a n = set_flag b (PageDataWrite dev s d a n)"
  by (simp add: PageDataWrite_def program_step_flag set_flag_def split: prod.splits)

lemma Init_activate_flag:
  "Init_activate dev (s\<lparr>g_bEEPROMInitialized := b\<rparr>) c p = set_flag b (Init_activate dev s c p)"
  by (simp add: Init_activate_def PageDataWrite_flag set_flag_def split: prod.splits)

lemma pages_flag [simp]: "pages (s\<lparr>g_bEEPROMInitialized := b\<rparr>) = pages s"
  by (simp add: pages_def)

lemma Init_find_active_flag [simp]:
  "Init_find_active (s\<lparr>g_bEEPROMInitialized := b\<rparr>) p = Init_find_active s p"
proof (induction s p rule: Init_find_active.induct)
  case (1 s p)
  then show ?case
    by (simp add: Init_find_active.simps [of s p]
          Init_find_active.simps [of "s\<lparr>g_bEEPROMInitialized := b\<rparr>" p])
qed

lemma Init_find_full_flag [simp]:
  "Init_find_full (s\<lparr>g_bEEPROMInitialized := b\<rparr>) p = Init_find_full s p"
proof (induction s p rule: Init_find_full.induct)
  case (1 s p)
  then show ?case
    by (simp add: Init_find_full.simps [of s p]
          Init_find_full.simps [of "s\<lparr>g_bEEPROMInitialized := b\<rparr>" p])
qed

lemma flash_flag: "flash (s\<lparr>g_bEEPROMInitialized := b\<rparr>) = flash s"
  by simp

lemma GetUsedPageCount_flag [simp]:
  "GetUsedPageCount (s\<lparr>g_bEEPROMInitialized := b\<rparr>) = GetUsedPageCount s"
  unfolding GetUsedPageCount_def pages_flag flash_flag ..

lemma GetActivePageCount_flag [simp]:
  "GetActivePageCount (s\<lparr>g_bEEPROMInitialized := b\<rparr>) = GetActivePageCount s"
  unfolding GetActivePageCount_def pages_flag flash_flag ..

lemma GetMostRecentlyUsedPage_flag [simp]:
  "GetMostRecentlyUsedPage (s\<lparr>g_bEEPROMInitialized := b\<rparr>) = GetMostRecentlyUsedPage s"
  unfolding GetMostRecentlyUsedPage_def pages_flag flash_flag ..

lemma next_page_flag [simp]:
  "next_page (s\<lparr>g_bEEPROMInitialized := b\<rparr>) p = next_page s p"
  by (simp add: next_page_def)

lemma GetNextAvailEntry_flag [simp]:
  "GetNextAvailEntry (s\<lparr>g_bEEPROMInitialized := b, g_pucActivePage := p\<rparr>)
     = GetNextAvailEntry (s\<lparr>g_pucActivePage := p\<rparr>)"
  by (simp add: GetNextAvailEntry_def usSize_def)

lemma Init_no_active_flag:
  "Init_no_active dev (s\<lparr>g_bEEPROMInitialized := b\<rparr>) = map_option (set_flag b) (Init_no_active dev s)"
proof (cases "GetUsedPageCount s = 0")
  case True
  then show ?thesis
    by (simp add: Init_no_active_def PageErase_flag Init_activate_flag set_flag_def
          split: prod.splits)
next
  case False
  then show ?thesis
    by (simp add: Init_no_active_def PageErase_flag Init_activate_flag set_flag_def Let_def
          split: prod.splits)
qed

lemma Init_one_active_flag:
  "Init_one_active dev (s\<lparr>g_bEEPROMInitialized := b\<rparr>) = set_flag b (Init_one_active dev s)"
  by (simp add: Init_one_active_def PageErase_flag Init_activate_flag set_flag_def Let_def
        split: prod.splits)

lemma Init_two_active_flag:
  "Init_two_active (s\<lparr>g_bEEPROMInitialized := b\<rparr>) = set_flag b (Init_two_active s)"
  by (simp add: Init_two_active_def set_flag_def split: prod.splits)

lemma Init_save_flag:
  "Init_save (s\<lparr>g_bEEPROMInitialized := b\<rparr>) x y z = (Init_save s x y z)\<lparr>g_bEEPROMInitialized := b\<rparr>"
  by (simp add: Init_save_def)

lemma Init_recover_flag:
  "Init_recover dev (s\<lparr>g_bEEPROMInitialized := b\<rparr>) = map_option (set_flag b) (Init_recover dev s)"
  by (simp add: Init_recover_def Init_no_active_flag Init_one_active_flag Init_two_active_flag
        set_flag_def Let_def)

text \<open>
  C8, as stated: a second init after a successful one is rejected.  It is not: on the
  erased reference flash the first init returns 0, and a second init on the state it
  leaves returns 0 again (here without issuing a flash command, the medium being
  consistent).
\<close>

theorem second_init_accepted:
  "map_option fst (SoftEEPROMInit ref_dev blank 0x3D000 0x3E000 0x400) = Some 0
   \<and> map_option fst (Option.bind (SoftEEPROMInit ref_dev blank 0x3D000 0x3E000 0x400)
         (\<lambda>(rc, s). SoftEEPROMInit ref_dev s 0x3D000 0x3E000 0x400)) = Some 0
   \<and> map_option (steps \<circ> snd) (Option.bind (SoftEEPROMInit ref_dev blank 0x3D000 0x3E000 0x400)
         (\<lambda>(rc, s). SoftEEPROMInit ref_dev (s\<lparr>steps := []\<rparr>) 0x3D000 0x3E000 0x400)) = Some []"
  by (simp add: init_defs dev_defs blank_def ref_dev_def cdefs Let_def PageDataWrite_verify_0)

text \<open>
  C8, amended: \<open>SoftEEPROMInit\<close> does not consult the initialized flag.  A call on a
  state whose flag is set runs the same recovery, with the same return code and the same
  resulting state, as a call on that state with the flag clear (a failed call leaves the
  flag as it found it).  Every write, read and clear on a driver that is not initialized
  returns \<open>ERR_NOT_INIT\<close> and changes nothing.
\<close>

theorem init_not_guarded:
  "SoftEEPROMInit dev (s\<lparr>g_bEEPROMInitialized := b\<rparr>) ulStart ulEnd ulSize =
     map_option (\<lambda>(rc, s'). (rc, if rc = 0 then s' else s'\<lparr>g_bEEPROMInitialized := b\<rparr>))
       (SoftEEPROMInit dev s ulStart ulEnd ulSize)
   \<and> (\<not> g_bEEPROMInitialized s \<longrightarrow>
        SoftEEPROMWrite dev s usID usData = Some (ERR_NOT_INIT, s)
      \<and> SoftEEPROMRead s usID = (ERR_NOT_INIT, None)
      \<and> SoftEEPROMClear dev s = (ERR_NOT_INIT, s))"
proof (intro conjI impI)
  show "SoftEEPROMInit dev (s\<lparr>g_bEEPROMInitialized := b\<rparr>) ulStart ulEnd ulSize =
     map_option (\<lambda>(rc, s'). (rc, if rc = 0 then s' else s'\<lparr>g_bEEPROMInitialized := b\<rparr>))
       (SoftEEPROMInit dev s ulStart ulEnd ulSize)"
    by (cases "Init_recover dev (Init_save s ulStart ulEnd ulSize)")
       (auto simp: SoftEEPROMInit_def Init_save_flag Init_recover_flag set_flag_def ERR_RANGE_def)
qed (simp_all add: SoftEEPROMWrite_def SoftEEPROMRead_def SoftEEPROMClear_def)

theorem init_not_guarded_witness:
  "SoftEEPROMInit ref_dev (blank\<lparr>g_bEEPROMInitialized := True\<rparr>) 0x3D000 0x3E000 0x400 =
     map_option (\<lambda>(rc, s'). (rc, if rc = 0 then s' else s'\<lparr>g_bEEPROMInitialized := True\<rparr>))
       (SoftEEPROMInit ref_dev blank 0x3D000 0x3E000 0x400)
   \<and> \<not> g_bEEPROMInitialized blank
   \<and> SoftEEPROMWrite ref_dev blank 1 2 = Some (ERR_NOT_INIT, blank)
   \<and> SoftEEPROMRead blank 1 = (ERR_NOT_INIT, None)
   \<and> SoftEEPROMClear ref_dev blank = (ERR_NOT_INIT, blank)"
  using init_not_guarded [where dev = ref_dev and s = blank and b = True
      and ulStart = "0x3D000" and ulEnd = "0x3E000" and ulSize = "0x400"
      and usID = 1 and usData = 2]
  by (simp add: blank_def)

subsection \<open>C6: recovery with two active pages\<close>

text \<open>Under the ASSERTs the masks of \<open>SoftEEPROMInit\<close> change nothing.\<close>

lemma Init_find_full_none:
  "filter (full_active (flash s) (g_ulEEPROMPgSize s))
      (page_addrs p (g_pucEEPROMEnd s) (g_ulEEPROMPgSize s)) = []
   \<Longrightarrow> fst (Init_find_full s p) = False"
proof (induction s p rule: Init_find_full.induct)
  case (1 s p)
  then show ?case
    by (auto simp add: Init_find_full.simps [of s p]
          page_addrs.simps [of p "g_pucEEPROMEnd s" "g_ulEEPROMPgSize s"]
          full_active_def ERASED_WORD_def split: if_splits)
qed

lemma Init_find_full_some:
  "filter (full_active (flash s) (g_ulEEPROMPgSize s))
      (page_addrs p (g_pucEEPROMEnd s) (g_ulEEPROMPgSize s)) = q # qs
   \<Longrightarrow> Init_find_full s p = (True, q)"
proof (induction s p rule: Init_find_full.induct)
  case (1 s p)
  then show ?case
    by (auto simp add: Init_find_full.simps [of s p]
          page_addrs.simps [of p "g_pucEEPROMEnd s" "g_ulEEPROMPgSize s"]
          full_active_def ERASED_WORD_def split: if_splits)
qed

text \<open>
  C6.  On a flash with exactly two active pages (and a region that passes the ASSERTs and
  the range check) init adopts the first active page, in address order, whose last entry
  is not erased, with the next available entry just past the end of that page, and
  returns 0; it returns \<open>ERR_TWO_ACTIVE_NO_FULL\<close> exactly when no active page is full, and
  then neither the active page, nor the next available entry, nor the initialized flag,
  nor the flash has changed.
\<close>

theorem two_active_recovery:
  assumes "init_asserts ulStart ulEnd ulSize"
    and "unat ulEnd \<le> SysCtlFlashSizeGet dev"
    and "length (filter (PageIsActive (flash s))
                   (page_addrs (unat ulStart) (unat ulEnd) (unat ulSize))) = 2"
  shows "SoftEEPROMInit dev s ulStart ulEnd ulSize =
     Some (case filter (full_active (flash s) (unat ulSize))
                  (page_addrs (unat ulStart) (unat ulEnd) (unat ulSize)) of
             [] \<Rightarrow> (ERR_TWO_ACTIVE_NO_FULL,
                    s\<lparr>g_pucEEPROMStart := unat ulStart, g_pucEEPROMEnd := unat ulEnd,
                      g_ulEEPROMPgSize := unat ulSize\<rparr>)
           | p # ps \<Rightarrow> (0,
                    s\<lparr>g_pucEEPROMStart := unat ulStart, g_pucEEPROMEnd := unat ulEnd,
                      g_ulEEPROMPgSize := unat ulSize, g_pucActivePage := p,
                      g_pucNextAvailEntry := p + unat ulSize,
                      g_bEEPROMInitialized := True\<rparr>))"
proof -
  let ?s0 = "s\<lparr>g_pucEEPROMStart := unat ulStart, g_pucEEPROMEnd := unat ulEnd,
                g_ulEEPROMPgSize := unat ulSize\<rparr>"
  let ?fs = "filter (full_active (flash s) (unat ulSize))
                  (page_addrs (unat ulStart) (unat ulEnd) (unat ulSize))"
  have save: "Init_save s ulStart ulEnd ulSize = ?s0"
    using assms(1) by (rule Init_save_asserts)
  have cnt: "GetActivePageCount ?s0 = 2"
    using assms(3) by (simp add: GetActivePageCount_filter pages_def)
  have rec: "Init_recover dev ?s0 = Some (Init_two_active ?s0)"
    by (simp add: Init_recover_def cnt)
  have two: "Init_two_active ?s0 =
      (case ?fs of [] \<Rightarrow> (ERR_TWO_ACTIVE_NO_FULL, ?s0)
       | p # ps \<Rightarrow> (0, ?s0\<lparr>g_pucActivePage := p, g_pucNextAvailEntry := p + unat ulSize\<rparr>))"
  proof (cases ?fs)
    case Nil
    then have "fst (Init_find_full ?s0 (unat ulStart)) = False"
      using Init_find_full_none [of ?s0 "unat ulStart"] by simp
    with Nil show ?thesis
      by (cases "Init_find_full ?s0 (unat ulStart)") (simp add: Init_two_active_def)
  next
    case (Cons q qs)
    then have "Init_find_full ?s0 (unat ulStart) = (True, q)"
      using Init_find_full_some [of ?s0 "unat ulStart" q qs] by simp
    with Cons show ?thesis
      by (simp add: Init_two_active_def)
  qed
  show ?thesis
    using assms(1,2)
    by (cases ?fs) (simp_all add: SoftEEPROMInit_def save rec two ERR_TWO_ACTIVE_NO_FULL_def)
qed

theorem two_active_recovery_witness:
  "init_asserts 0x3D000 0x3E000 0x400
   \<and> unat (0x3E000 :: 32 word) \<le> SysCtlFlashSizeGet ref_dev
   \<and> length (filter (PageIsActive two_active_flash) (page_addrs 0x3D000 0x3E000 0x400)) = 2
   \<and> SoftEEPROMInit ref_dev (blank\<lparr>flash := two_active_flash\<rparr>) 0x3D000 0x3E000 0x400 =
       Some (0, blank\<lparr>flash := two_active_flash, g_pucEEPROMStart := 0x3D000,
                      g_pucEEPROMEnd := 0x3E000, g_ulEEPROMPgSize := 0x400,
                      g_pucActivePage := 0x3D000, g_pucNextAvailEntry := 0x3D400,
                      g_bEEPROMInitialized := True\<rparr>)"
proof -
  have a: "init_asserts 0x3D000 0x3E000 0x400"
    by (simp add: init_asserts_def cdefs)
  have b: "unat (0x3E000 :: 32 word) \<le> SysCtlFlashSizeGet ref_dev"
    by (simp add: ref_dev_def nor_flash_def)
  have c: "length (filter (PageIsActive (flash (blank\<lparr>flash := two_active_flash\<rparr>)))
             (page_addrs (unat (0x3D000 :: 32 word)) (unat (0x3E000 :: 32 word))
                (unat (0x400 :: 32 word)))) = 2"
    by (simp add: page_addrs.simps PageIsActive_def two_active_flash_def cdefs)
  show ?thesis
    using two_active_recovery [OF a b c] a b c
    by (simp add: page_addrs.simps full_active_def PageIsActive_def two_active_flash_def cdefs
          blank_def)
qed

subsection \<open>C1: round trip and last write wins\<close>

text \<open>
  C1.  On a sound device, from a state the driver keeps between calls, after a sequence of
  writes that all returned 0 (the compactions they ran included), a read of an identifier
  below \<open>NUM_IDS\<close> returns 0 and reports as found the data of the last write of that
  identifier in the sequence; for an identifier not written in the sequence it reports
  what it reported before the sequence, and on a page that had no entry before the
  sequence it reports not found.
\<close>

theorem round_trip:
  assumes "dev_ok dev" and "state_ok s" and "write_all dev s ops = Some s'"
    and "unat usID < NUM_IDS"
  shows "SoftEEPROMRead s' usID =
           (case map_of (rev ops) usID of
              Some usData \<Rightarrow> (0, Some (usData, True))
            | None \<Rightarrow> SoftEEPROMRead s usID) \<and>
         (used s = 0 \<and> usID \<notin> fst ` set ops \<longrightarrow>
            SoftEEPROMRead s' usID = (0, Some (0xFFFF, False)))"
proof -
  from write_all_ok [OF assms(1,2,3)]
  have ok': "state_ok s'"
    and l: "lookup usID (entries s') =
       (case map_of (rev ops) usID of Some v \<Rightarrow> (v, True) | None \<Rightarrow> lookup usID (entries s))"
    by simp_all
  have r: "SoftEEPROMRead s' usID =
           (case map_of (rev ops) usID of
              Some usData \<Rightarrow> (0, Some (usData, True))
            | None \<Rightarrow> SoftEEPROMRead s usID)"
    by (simp add: Read_ok [OF ok' assms(4)] Read_ok [OF assms(2,4)] l split: option.splits)
  have "map_of (rev ops) usID = None" if "usID \<notin> fst ` set ops"
    using that by (simp add: map_of_eq_None_iff)
  moreover have "SoftEEPROMRead s usID = (0, Some (0xFFFF, False))" if "used s = 0"
    using that by (simp add: Read_ok [OF assms(2,4)] entries_def lookup_def)
  ultimately show ?thesis using r by simp
qed

theorem round_trip_witness:
  "SoftEEPROMRead (the (write_all ref_dev ready [(1, 2), (3, 4), (1, 5)])) 1 = (0, Some (5, True)) \<and>
   SoftEEPROMRead (the (write_all ref_dev ready [(1, 2), (3, 4), (1, 5)])) 3 = (0, Some (4, True)) \<and>
   SoftEEPROMRead (the (write_all ref_dev ready [(1, 2), (3, 4), (1, 5)])) 2 = (0, Some (0xFFFF, False))"
proof -
  define ops :: "(16 word \<times> 16 word) list" where "ops = [(1, 2), (3, 4), (1, 5)]"
  define t where "t = the (write_all ref_dev ready ops)"
  have "write_all ref_dev ready ops \<noteq> None"
    by (simp add: ops_def SoftEEPROMWrite_def ref_dev_def ready_def dev_defs cdefs
          PageDataWrite_verify_0)
  then have e: "write_all ref_dev ready ops = Some t" by (simp add: t_def)
  have d: "dev_ok ref_dev" by (simp add: ref_dev_def nor_flash_ok)
  have u: "used ready = 0" by (simp add: used_def ready_def)
  have m: "map_of (rev ops) 1 = Some 5" "map_of (rev ops) 3 = Some 4" "2 \<notin> fst ` set ops"
    by (simp_all add: ops_def)
  have "SoftEEPROMRead t 1 = (0, Some (5, True))"
    using round_trip [OF d ready_ok e, of 1, THEN conjunct1] m(1) by (simp add: cdefs)
  moreover have "SoftEEPROMRead t 3 = (0, Some (4, True))"
    using round_trip [OF d ready_ok e, of 3, THEN conjunct1] m(2) by (simp add: cdefs)
  moreover have "SoftEEPROMRead t 2 = (0, Some (0xFFFF, False))"
    using round_trip [OF d ready_ok e, of 2, THEN conjunct2] m(3) u by (simp add: cdefs)
  ultimately show ?thesis by (simp only: t_def ops_def)
qed

subsection \<open>C2: the number of active pages\<close>

text \<open>
  C2.  No state between the program and erase steps of an operation is claimed to have
  zero active pages.  \<open>SoftEEPROMClear\<close> retires the active page before it erases and
  marks the next one: on the freshly initialized reference region the clear returns 0 and
  the flash after its first program command has no active page.
\<close>

theorem clear_retires_first:
  "fst (SoftEEPROMClear ref_dev ready) = 0 \<and>
   active_count ready (hd (steps (snd (SoftEEPROMClear ref_dev ready)))) = 0 \<and>
   length (filter (PageIsUsed (hd (steps (snd (SoftEEPROMClear ref_dev ready))))) (pages ready)) = 1"
  by (simp add: SoftEEPROMClear_def active_count_def pages_def ref_dev_def ready_def dev_defs
        cdefs PageDataWrite_verify_0 Let_def)

text \<open>
  C2, amended: zero active pages are allowed where the driver erases a page before it
  marks it, and nothing else changes.  On a sound device:

  \<^item> after every program and erase command of a \<open>SoftEEPROMInit\<close> that returns 0, on any
    flash content (the region having fewer than 256 pages, the range of the page
    counters), at most one page is marked active; init ends with at most two pages marked
    active, with at least one unless the status word of the page it adopted reads erased,
    and with two only when it found two and issued no command;

  \<^item> from a state the driver keeps between calls in which the pages marked active are
    its active page and, at most, the page after it while the active page is full (what
    init leaves after a reset during a compaction), the generation counter not being the
    last one before the erased value: after every program and erase command of a write
    that returns 0 one page is marked active, or two, and two only when the write
    compacts; after every program and erase command of a clear that returns 0 at most one
    page is marked active; and either operation ends in a state the driver keeps between
    calls with exactly one page marked active, its active page.
\<close>

theorem active_page_window:
  assumes "dev_ok dev"
  shows "(cfg_ok (Init_save s0 ulStart ulEnd ulSize) \<and>
          length (pages (Init_save s0 ulStart ulEnd ulSize)) < 256 \<and>
          SoftEEPROMInit dev s0 ulStart ulEnd ulSize = Some (0, s1) \<longrightarrow>
            steps_from s0 s1 (\<lambda>m. active_count s1 m \<le> 1) \<and>
            active_count s1 (flash s1) \<le> 2 \<and>
            (flash s1 (g_pucActivePage s1) \<noteq> ERASED_WORD \<longrightarrow> 1 \<le> active_count s1 (flash s1)) \<and>
            (active_count s1 (flash s1) = 2 \<longrightarrow> steps s1 = steps s0 \<and> flash s1 = flash s0)) \<and>
         (state_ok s \<and> active_ok s \<and> flash s (g_pucActivePage s) + 1 \<noteq> ERASED_WORD \<longrightarrow>
            (SoftEEPROMWrite dev s usID usData = Some (0, s') \<longrightarrow>
               steps_from s s'
                 (\<lambda>m. active_count s m = 1 \<or>
                       g_pucNextAvailEntry s \<ge> g_pucActivePage s + g_ulEEPROMPgSize s \<and>
                       active_count s m = 2) \<and>
               state_ok s' \<and> one_active s') \<and>
            (SoftEEPROMClear dev s = (0, s'') \<longrightarrow>
               steps_from s s'' (\<lambda>m. active_count s m \<le> 1) \<and>
               state_ok s'' \<and> one_active s''))"
proof (intro conjI impI; (elim conjE)?)
  assume "cfg_ok (Init_save s0 ulStart ulEnd ulSize)"
    and "length (pages (Init_save s0 ulStart ulEnd ulSize)) < 256"
    and "SoftEEPROMInit dev s0 ulStart ulEnd ulSize = Some (0, s1)"
  note i = Init_steps [OF assms this]
  show "steps_from s0 s1 (\<lambda>m. active_count s1 m \<le> 1)" by (rule i(1))
  show "active_count s1 (flash s1) \<le> 2" by (rule i(2))
  show "1 \<le> active_count s1 (flash s1)" if "flash s1 (g_pucActivePage s1) \<noteq> ERASED_WORD"
    using i(3) that by simp
  show "steps s1 = steps s0" "flash s1 = flash s0" if "active_count s1 (flash s1) = 2"
    using i(4) that by simp_all
next
  assume ok: "state_ok s" and act: "active_ok s"
    and gen: "flash s (g_pucActivePage s) + 1 \<noteq> ERASED_WORD"
    and r: "SoftEEPROMWrite dev s usID usData = Some (0, s')"
  from ok have cfg: "cfg_ok s"
    and na: "g_pucNextAvailEntry s = g_pucActivePage s + 8 + 4 * used s" and u: "used s \<le> cap s"
    by (simp_all add: state_ok_def)
  have full: "g_pucNextAvailEntry s \<ge> g_pucActivePage s + g_ulEEPROMPgSize s \<longleftrightarrow> used s = cap s"
    using na cfg_pg(1) [OF cfg] u by auto
  note wo = Write_ok [OF assms ok r]
  show "state_ok s'" by (rule wo(1))
  show "one_active s'" by (rule Write_one_active [OF assms ok act gen r])
  show "steps_from s s'
          (\<lambda>m. active_count s m = 1 \<or>
                g_pucNextAvailEntry s \<ge> g_pucActivePage s + g_ulEEPROMPgSize s \<and>
                active_count s m = 2)"
  proof (rule steps_from_mono [OF wo(3)])
    fix m assume m: "if used s = cap s then in_swap s m else same_status s m"
    show "active_count s m = 1 \<or>
          g_pucNextAvailEntry s \<ge> g_pucActivePage s + g_ulEEPROMPgSize s \<and> active_count s m = 2"
    proof (cases "used s = cap s")
      case True
      with m have "in_swap s m" by simp
      from in_swap_count [OF ok act this gen] True full show ?thesis by blast
    next
      case False
      with m have "same_status s m" by simp
      from same_status_count [OF ok act False this] show ?thesis ..
    qed
  qed
next
  assume ok: "state_ok s" and act: "active_ok s"
    and gen: "flash s (g_pucActivePage s) + 1 \<noteq> ERASED_WORD"
    and r: "SoftEEPROMClear dev s = (0, s'')"
  note co = Clear_ok [OF assms ok act gen r]
  show "steps_from s s'' (\<lambda>m. active_count s m \<le> 1)" by (rule co(1))
  show "state_ok s''" by (rule co(2))
  show "one_active s''" by (rule co(3))
qed

theorem active_page_window_witness:
  "SoftEEPROMInit ref_dev (blank\<lparr>flash := mid_swap_flash\<rparr>) 0x3D000 0x3E000 0x400 =
     Some (0, mid_swap) \<and>
   active_count mid_swap (flash mid_swap) = 2 \<and>
   steps mid_swap = steps (blank\<lparr>flash := mid_swap_flash\<rparr>) \<and>
   g_pucNextAvailEntry mid_swap \<ge> g_pucActivePage mid_swap + g_ulEEPROMPgSize mid_swap \<and>
   steps_from mid_swap (snd (the (SoftEEPROMWrite ref_dev mid_swap 3 4)))
     (\<lambda>m. active_count mid_swap m = 1 \<or> active_count mid_swap m = 2) \<and>
   one_active (snd (the (SoftEEPROMWrite ref_dev mid_swap 3 4))) \<and>
   steps_from mid_swap (snd (SoftEEPROMClear ref_dev mid_swap))
     (\<lambda>m. active_count mid_swap m \<le> 1) \<and>
   one_active (snd (SoftEEPROMClear ref_dev mid_swap))"
proof -
  define b where "b = blank\<lparr>flash := mid_swap_flash\<rparr>"
  define t where "t = snd (the (SoftEEPROMWrite ref_dev mid_swap 3 4))"
  define c where "c = snd (SoftEEPROMClear ref_dev mid_swap)"
  have d: "dev_ok ref_dev" by (simp add: ref_dev_def nor_flash_ok)
  have i: "SoftEEPROMInit ref_dev b 0x3D000 0x3E000 0x400 = Some (0, mid_swap)"
    unfolding b_def by (rule mid_swap_init)
  have ok: "state_ok mid_swap" by (rule mid_swap_ok)
  have act: "active_ok mid_swap" and two: "active_count mid_swap (flash mid_swap) = 2"
    using mid_swap_active by simp_all
  have g: "flash mid_swap (g_pucActivePage mid_swap) + 1 \<noteq> ERASED_WORD"
    by (simp add: mid_swap_def ready_def mid_swap_flash_def cdefs)
  have full: "g_pucNextAvailEntry mid_swap \<ge> g_pucActivePage mid_swap + g_ulEEPROMPgSize mid_swap"
    by (simp add: mid_swap_def ready_def)
  have "unat (3 :: 16 word) < NUM_IDS" by (simp add: cdefs)
  from nor_Write [OF ok this, of "0x40000" 4]
  have w: "SoftEEPROMWrite ref_dev mid_swap 3 4 = Some (0, t)"
    by (auto simp: t_def ref_dev_def)
  have cl: "SoftEEPROMClear ref_dev mid_swap = (0, c)"
    using nor_Clear [OF ok, of "0x40000"] by (simp add: c_def ref_dev_def prod_eq_iff)
  note th = active_page_window [OF d, of b "0x3D000" "0x3E000" "0x400" mid_swap mid_swap 3 4 t c]
  from th ref_region [of b] i two have "steps mid_swap = steps b" by blast
  moreover from th ok act g w full
  have "steps_from mid_swap t (\<lambda>m. active_count mid_swap m = 1 \<or> active_count mid_swap m = 2)"
    "one_active t"
    by simp_all
  moreover from th ok act g cl
  have "steps_from mid_swap c (\<lambda>m. active_count mid_swap m \<le> 1)" "one_active c"
    by simp_all
  ultimately show ?thesis
    using i two full unfolding b_def t_def c_def by blast
qed

section \<open>Further properties of the driver\<close>

text \<open>
  X1.  A first \<open>SoftEEPROMInit\<close> of the reference region on an erased flash returns 0 and
  leaves the driver with the first page active under generation 0 and no entry: the state
  \<open>ready\<close>, after two flash commands.
\<close>

theorem fresh_start:
  "map_option (\<lambda>(rc, s). (rc, s\<lparr>steps := []\<rparr>, length (steps s)))
     (SoftEEPROMInit ref_dev blank 0x3D000 0x3E000 0x400) = Some (0, ready, 2)"
  by (simp add: init_defs dev_defs blank_def ref_dev_def ready_def cdefs Let_def
        PageDataWrite_verify_0 fun_eq_iff)

text \<open>
  X2.  On a flash without faults, from a state the driver keeps between calls, every
  sequence of writes of identifiers below \<open>NUM_IDS\<close> goes through: each write returns 0,
  also when it has to compact a full page, and the driver is left in such a state again.
\<close>

theorem writes_succeed:
  assumes "state_ok s" and "\<forall>(usID, usData) \<in> set ops. unat usID < NUM_IDS"
  shows "\<exists>s'. write_all (nor_flash sz) s ops = Some s' \<and> state_ok s'"
proof -
  from nor_write_all [OF assms, of sz] obtain s' where w: "write_all (nor_flash sz) s ops = Some s'" ..
  from write_all_ok [OF nor_flash_ok assms(1) w, of 0] w show ?thesis by blast
qed

theorem writes_succeed_witness:
  "\<exists>s'. write_all ref_dev full_page [(1, 5), (3, 4)] = Some s' \<and> state_ok s'"
  using writes_succeed [OF full_page_ok, of "[(1, 5), (3, 4)]" "0x40000"]
  by (simp add: ref_dev_def cdefs)

text \<open>
  X3.  On a sound device, after a \<open>SoftEEPROMClear\<close> that returns 0 the active page has
  no entry and a read of any identifier below \<open>NUM_IDS\<close> reports not found.
\<close>

theorem clear_empties:
  assumes "dev_ok dev" and "state_ok s" and "one_active s"
    and "flash s (g_pucActivePage s) + 1 \<noteq> ERASED_WORD"
    and "SoftEEPROMClear dev s = (0, s')" and "unat usID < NUM_IDS"
  shows "SoftEEPROMRead s' usID = (0, Some (0xFFFF, False))"
proof -
  note co = Clear_ok [OF assms(1,2) one_active_ok [OF assms(2,3)] assms(4,5)]
  show ?thesis by (simp add: Read_ok [OF co(2) assms(6)] co(4) lookup_def)
qed

theorem clear_empties_witness:
  "SoftEEPROMRead full_page 1 = (0, Some (2, True)) \<and>
   SoftEEPROMRead (snd (SoftEEPROMClear ref_dev full_page)) 1 = (0, Some (0xFFFF, False))"
proof -
  define c where "c = snd (SoftEEPROMClear ref_dev full_page)"
  have cl: "SoftEEPROMClear ref_dev full_page = (0, c)"
    using nor_Clear [OF full_page_ok, of "0x40000"] by (simp add: c_def ref_dev_def prod_eq_iff)
  have d: "dev_ok ref_dev" by (simp add: ref_dev_def nor_flash_ok)
  have o: "one_active full_page"
    unfolding one_active_def
    by (simp add: full_page_def pages_def ready_def page_addrs.simps PageIsActive_def
          full_flash_def cdefs)
  have g: "flash full_page (g_pucActivePage full_page) + 1 \<noteq> ERASED_WORD"
    by (simp add: full_page_def ready_def full_flash_def cdefs)
  have r: "SoftEEPROMRead full_page 1 = (0, Some (2, True))"
    by (simp add: SoftEEPROMRead_def full_page_def ready_def full_flash_def cdefs
          SoftEEPROMRead_loop.simps)
  have "SoftEEPROMRead c 1 = (0, Some (0xFFFF, False))"
    using clear_empties [OF d full_page_ok o g cl, of 1] by (simp add: cdefs)
  with r show ?thesis by (simp only: c_def)
qed

end
